theory Spec2Isabelle
  imports Main
begin

section \<open>Request context storage (lib/filter/request-context-storage.js)\<close>

text \<open>
  The module keeps a map from request identifiers to request contexts, a counter of log
  events, and talks to two collaborators: the filtering log and the webRequest service.
  The model threads the module state explicitly and records every call to a collaborator,
  in program order, in the field \<open>calls\<close>.
\<close>

text \<open>The life-cycle states of lines 54-58.\<close>

datatype States = NONE | PROCESSING | DONE

text \<open>
  Modelled from the spec: the table \<open>purify.RequestTypes\<close> is defined in none of the source
  files. The code names its members \<open>DOCUMENT\<close>, \<open>CSP\<close>, \<open>OBJECT\<close>, \<open>MEDIA\<close>, \<open>FONT\<close> and
  \<open>IMAGE\<close>; the other members are those of the data model of the specification.
\<close>

datatype RequestTypes = DOCUMENT | SUBDOCUMENT | IMAGE | MEDIA | FONT | OBJECT | OTHER | CSP

text \<open>
  A rule is an object; the number stands for its identity, which is what the JavaScript
  \<open>Map\<close> of attached elements compares. A tab is an object with a \<open>tabId\<close>.
\<close>

datatype rule = Rule nat

record tab =
  tabId :: int

type_synonym header = "string \<times> string"

text \<open>
  The context of lines 27-46. Properties which the object literal of \<open>record\<close> does not
  set are absent (\<open>undefined\<close>) until some later call assigns them: they are options, and
  \<open>None\<close> also stands for \<open>null\<close>, which the code never tells apart from \<open>undefined\<close>.
\<close>

record request_context =
  requestId :: string
  requestUrl :: string
  referrerUrl :: string
  originUrl :: string
  requestType :: RequestTypes
  tab :: tab
  eventId :: nat
  requestState :: States
  contentModifyingState :: States
  requestRule :: "rule option"
  replaceRules :: "rule list option"
  cspRules :: "rule list option"
  contentRules :: "rule list option"
  elements :: "(rule \<rightharpoonup> string list) option"
  stealthActions :: "nat option"
  requestHeaders :: "header list option"
  responseHeaders :: "header list option"
  modifiedRequestHeaders :: "header list option"
  modifiedResponseHeaders :: "header list option"

text \<open>
  The second argument of \<open>recordRuleHit\<close>. JavaScript is untyped: line 346 pushes a whole
  array onto \<open>ruleHitsRecords\<close>, so an element of that array is either a rule or an array
  of rules; \<open>recordEmulated\<close> may pass \<open>null\<close>.
\<close>

datatype hit_argument = HitRule rule | HitRuleArray "rule list" | HitNull

text \<open>The calls to the filtering log and to the webRequest service, with their arguments.\<close>

datatype call =
    ClearEventsByTabId int
  | AddHttpRequestEvent tab string string RequestTypes "rule option" "nat option"
  | BindRuleToHttpRequestEvent tab "rule option" nat
  | BindReplaceRulesToHttpRequestEvent tab "rule list" nat
  | BindStealthActionsToHttpRequestEvent tab nat nat
  | AddCosmeticEvent tab string string RequestTypes rule
  | RecordRuleHit tab hit_argument string

text \<open>
  The module state: the map \<open>contexts\<close> (line 64), the counter \<open>nextEventId\<close> (line 71; a
  JavaScript number counts exactly up to \<open>2^53\<close>, a bound no run reaches, so it is a natural
  number here) and the calls made so far.
\<close>

record ledger =
  contexts :: "string \<rightharpoonup> request_context"
  nextEventId :: nat
  calls :: "call list"

definition initial_ledger :: ledger where
  "initial_ledger = \<lparr>contexts = Map.empty, nextEventId = 0, calls = []\<rparr>"

text \<open>
  The only exception the module can raise by itself: line 351 calls \<open>context.elements.get\<close>,
  a \<open>TypeError\<close> when \<open>elements\<close> is undefined.
\<close>

datatype ledger_error = TypeError

text \<open>Lines 79-84. An array, also an empty one, is truthy.\<close>

definition appendRules :: "rule list option \<Rightarrow> rule list option \<Rightarrow> rule list option" where
  "appendRules original toAppend =
     (case toAppend of
        None \<Rightarrow> original
      | Some rs \<Rightarrow> Some ((case original of None \<Rightarrow> [] | Some os \<Rightarrow> os) @ rs))"

text \<open>Lines 91-92: a fresh array of fresh name/value objects.\<close>

definition copyHeaders :: "header list option \<Rightarrow> header list" where
  "copyHeaders headers =
     map (\<lambda>h. (fst h, snd h)) (case headers of None \<Rightarrow> [] | Some hs \<Rightarrow> hs)"

text \<open>Lines 98-101: the new state and the identifier returned.\<close>

definition getNextEventId :: "ledger \<Rightarrow> ledger \<times> nat" where
  "getNextEventId s = (s\<lparr>nextEventId := nextEventId s + 1\<rparr>, nextEventId s + 1)"

text \<open>Lines 107-109.\<close>

definition get :: "ledger \<Rightarrow> string \<Rightarrow> request_context option" where
  "get s rid = contexts s rid"

text \<open>
  Lines 121-160 (\<open>record\<close> is a keyword of Isabelle, hence the longer name). The arguments
  are, in the order of the source: identifier, request url, referrer url, origin url, request
  type and tab.
\<close>

definition recordRequest ::
  "ledger \<Rightarrow> string \<Rightarrow> string \<Rightarrow> string \<Rightarrow> string \<Rightarrow> RequestTypes \<Rightarrow> tab \<Rightarrow> ledger" where
  "recordRequest s0 rid url referrer origin ty tb =
     (let (s1, eid) = getNextEventId s0;
          s2 = (if ty = DOCUMENT \<and> contexts s1 rid = None
                then s1\<lparr>calls := calls s1 @ [ClearEventsByTabId (tabId tb)]\<rparr>
                else s1);
          ctx = \<lparr>requestId = rid, requestUrl = url, referrerUrl = referrer,
                 originUrl = origin, requestType = ty, tab = tb, eventId = eid,
                 requestState = PROCESSING, contentModifyingState = NONE,
                 requestRule = None, replaceRules = None, cspRules = None,
                 contentRules = None, elements = None, stealthActions = None,
                 requestHeaders = None, responseHeaders = None,
                 modifiedRequestHeaders = None, modifiedResponseHeaders = None\<rparr>;
          s3 = s2\<lparr>contexts := (contexts s2)(rid \<mapsto> ctx)\<rparr>
      in s3\<lparr>calls := calls s3 @ [AddHttpRequestEvent tb url referrer ty None (Some eid)]\<rparr>)"

text \<open>Lines 171-186.\<close>

definition recordEmulated ::
  "ledger \<Rightarrow> string \<Rightarrow> string \<Rightarrow> RequestTypes \<Rightarrow> tab \<Rightarrow> rule option \<Rightarrow> ledger" where
  "recordEmulated s url referrer ty tb rl =
     s\<lparr>calls := calls s @
         [AddHttpRequestEvent tb url referrer ty rl None,
          RecordRuleHit tb (case rl of None \<Rightarrow> HitNull | Some r \<Rightarrow> HitRule r) url]\<rparr>"

text \<open>
  The second argument of \<open>update\<close> is an object with any subset of the properties below.
  The outer option says whether the property is \<open>in\<close> the object; the inner one is its
  value, which may be \<open>null\<close> or \<open>undefined\<close>.
\<close>

record context_update =
  u_requestState :: "States option"
  u_contentModifyingState :: "States option"
  u_requestRule :: "rule option option"
  u_replaceRules :: "rule list option option"
  u_cspRules :: "rule list option option"
  u_stealthActions :: "nat option option"
  u_requestHeaders :: "header list option option"
  u_responseHeaders :: "header list option option"
  u_modifiedRequestHeaders :: "header list option option"
  u_modifiedResponseHeaders :: "header list option option"

definition no_update :: context_update where
  "no_update = \<lparr>u_requestState = None, u_contentModifyingState = None, u_requestRule = None,
     u_replaceRules = None, u_cspRules = None, u_stealthActions = None,
     u_requestHeaders = None, u_responseHeaders = None,
     u_modifiedRequestHeaders = None, u_modifiedResponseHeaders = None\<rparr>"

text \<open>Lines 199-243 on the context found: the context after the update and the calls made.\<close>

definition updateContext :: "request_context \<Rightarrow> context_update \<Rightarrow> request_context \<times> call list" where
  "updateContext c0 u =
     (let c1 = (case u_requestState u of None \<Rightarrow> c0 | Some st \<Rightarrow> c0\<lparr>requestState := st\<rparr>);
          c2 = (case u_contentModifyingState u of None \<Rightarrow> c1
                | Some st \<Rightarrow> c1\<lparr>contentModifyingState := st\<rparr>);
          c3 = (case u_requestRule u of None \<Rightarrow> c2 | Some r \<Rightarrow> c2\<lparr>requestRule := r\<rparr>);
          cs = (case u_requestRule u of None \<Rightarrow> []
                | Some r \<Rightarrow> [BindRuleToHttpRequestEvent (tab c3) (requestRule c3) (eventId c3)]);
          c4 = (case u_replaceRules u of None \<Rightarrow> c3 | Some rs \<Rightarrow> c3\<lparr>replaceRules := rs\<rparr>);
          c5 = (case u_cspRules u of None \<Rightarrow> c4
                | Some rs \<Rightarrow> c4\<lparr>cspRules := appendRules (cspRules c4) rs\<rparr>);
          c6 = (case u_stealthActions u of None \<Rightarrow> c5 | Some a \<Rightarrow> c5\<lparr>stealthActions := a\<rparr>);
          c7 = (case u_requestHeaders u of None \<Rightarrow> c6
                | Some hs \<Rightarrow> c6\<lparr>requestHeaders := Some (copyHeaders hs)\<rparr>);
          c8 = (case u_responseHeaders u of None \<Rightarrow> c7
                | Some hs \<Rightarrow> c7\<lparr>responseHeaders := Some (copyHeaders hs)\<rparr>);
          c9 = (case u_modifiedRequestHeaders u of None \<Rightarrow> c8
                | Some hs \<Rightarrow> c8\<lparr>modifiedRequestHeaders := Some (copyHeaders hs)\<rparr>);
          c10 = (case u_modifiedResponseHeaders u of None \<Rightarrow> c9
                | Some hs \<Rightarrow> c9\<lparr>modifiedResponseHeaders := Some (copyHeaders hs)\<rparr>)
      in (c10, cs))"

text \<open>Lines 193-244.\<close>

definition update :: "ledger \<Rightarrow> string \<Rightarrow> context_update \<Rightarrow> ledger" where
  "update s rid u =
     (case contexts s rid of
        None \<Rightarrow> s
      | Some c \<Rightarrow>
          (let (c', cs) = updateContext c u
           in s\<lparr>contexts := (contexts s)(rid \<mapsto> c'), calls := calls s @ cs\<rparr>))"

text \<open>Lines 253-270. An array, once stored under a rule, is never falsy.\<close>

definition bindContentRule :: "ledger \<Rightarrow> string \<Rightarrow> rule \<Rightarrow> string \<Rightarrow> ledger" where
  "bindContentRule s rid rl elementHtml =
     (case contexts s rid of
        None \<Rightarrow> s
      | Some c \<Rightarrow>
          (let c1 = c\<lparr>contentRules := appendRules (contentRules c) (Some [rl])\<rparr>;
               els = (case elements c1 of None \<Rightarrow> Map.empty | Some m \<Rightarrow> m);
               ruleElements = (case els rl of None \<Rightarrow> [] | Some es \<Rightarrow> es);
               c2 = c1\<lparr>elements := Some (els(rl \<mapsto> ruleElements @ [elementHtml]))\<rparr>
           in s\<lparr>contexts := (contexts s)(rid \<mapsto> c2)\<rparr>))"

text \<open>
  Lines 350-362: the loop over the content rules. It reads and deletes the elements attached
  to each rule in turn, so the map of elements is threaded through.
\<close>

fun cosmeticEvents ::
  "tab \<Rightarrow> string \<Rightarrow> RequestTypes \<Rightarrow> rule list \<Rightarrow> (rule \<rightharpoonup> string list) \<Rightarrow>
     call list \<times> (rule \<rightharpoonup> string list)" where
  "cosmeticEvents tb url ty [] els = ([], els)"
| "cosmeticEvents tb url ty (contentRule # rest) els =
     (let es = (case els contentRule of None \<Rightarrow> [] | Some xs \<Rightarrow> xs);
          evs = map (\<lambda>element. AddCosmeticEvent tb element url ty contentRule) es;
          (evs', els') = cosmeticEvents tb url ty rest (els(contentRule := None))
      in (evs @ evs', els'))"

text \<open>
  Lines 296-332, the request part of \<open>remove\<close>: the context after it, the calls to the
  filtering log, and the rules pushed onto \<open>ruleHitsRecords\<close>. Zero is the falsy number.
\<close>

definition removeRequestPart :: "request_context \<Rightarrow> request_context \<times> call list \<times> hit_argument list" where
  "removeRequestPart c =
     (if requestState c = DONE then
        (let c' = c\<lparr>requestState := NONE\<rparr>;
             (l1, h1) = (case requestRule c' of None \<Rightarrow> ([], [])
                | Some r \<Rightarrow> ([BindRuleToHttpRequestEvent (tab c') (Some r) (eventId c')],
                             [HitRule r]));
             (l2, h2) = (case cspRules c' of None \<Rightarrow> ([], [])
                | Some rs \<Rightarrow> (map (\<lambda>cspRule. AddHttpRequestEvent (tab c') (requestUrl c')
                                     (referrerUrl c') CSP (Some cspRule) None) rs,
                              map HitRule rs));
             l3 = (case stealthActions c' of None \<Rightarrow> []
                | Some a \<Rightarrow> if a = 0 then []
                            else [BindStealthActionsToHttpRequestEvent (tab c') a (eventId c')])
         in (c', l1 @ l2 @ l3, h1 @ h2))
      else (c, [], []))"

text \<open>
  Lines 334-365, the content part of \<open>remove\<close>. Line 346 pushes the array of replace rules
  as one element; lines 322 and 363 concatenate. Line 351 raises when there is a content
  rule to visit and no map of elements.
\<close>

definition removeContentPart ::
  "request_context \<Rightarrow> ledger_error + (request_context \<times> call list \<times> hit_argument list)" where
  "removeContentPart c =
     (if contentModifyingState c = DONE then
        (let c' = c\<lparr>contentModifyingState := NONE\<rparr>;
             (l1, h1) = (case replaceRules c' of None \<Rightarrow> ([], [])
                | Some rs \<Rightarrow> ([BindReplaceRulesToHttpRequestEvent (tab c') rs (eventId c')],
                              [HitRuleArray rs]))
         in (case contentRules c' of
               None \<Rightarrow> Inr (c', l1, h1)
             | Some [] \<Rightarrow> Inr (c', l1, h1)
             | Some (r # rs) \<Rightarrow>
                 (case elements c' of
                    None \<Rightarrow> Inl TypeError
                  | Some els \<Rightarrow>
                      (let (l2, els') = cosmeticEvents (tab c') (requestUrl c')
                                          (requestType c') (r # rs) els
                       in Inr (c'\<lparr>elements := Some els'\<rparr>, l1 @ l2,
                               h1 @ map HitRule (r # rs))))))
      else Inr (c, [], []))"

text \<open>
  Lines 284-382. The calls of \<open>recordRuleHit\<close> (lines 367-373) come after all calls to the
  filtering log. The model stops at the exception; the calls made before it are not kept.
\<close>

definition remove :: "ledger \<Rightarrow> string \<Rightarrow> ledger_error + ledger" where
  "remove s rid =
     (case contexts s rid of
        None \<Rightarrow> Inr s
      | Some c \<Rightarrow>
          (let (c1, l1, h1) = removeRequestPart c
           in (case removeContentPart c1 of
                 Inl e \<Rightarrow> Inl e
               | Inr (c2, l2, h2) \<Rightarrow>
                   (let ruleHitsRecords = h1 @ h2;
                        hits = map (\<lambda>r. RecordRuleHit (tab c) r (requestUrl c)) ruleHitsRecords;
                        s' = s\<lparr>calls := calls s @ l1 @ l2 @ hits\<rparr>
                    in if requestState c2 = NONE \<and> contentModifyingState c2 = NONE
                       then Inr (s'\<lparr>contexts := (contexts s)(rid := None)\<rparr>)
                       else Inr (s'\<lparr>contexts := (contexts s)(rid \<mapsto> c2)\<rparr>)))))"

text \<open>Lines 389-392.\<close>

definition onRequestCompleted :: "ledger \<Rightarrow> string \<Rightarrow> ledger_error + ledger" where
  "onRequestCompleted s rid = remove (update s rid (no_update\<lparr>u_requestState := Some DONE\<rparr>)) rid"

text \<open>Lines 399-401.\<close>

definition onContentModificationStarted :: "ledger \<Rightarrow> string \<Rightarrow> ledger" where
  "onContentModificationStarted s rid =
     update s rid (no_update\<lparr>u_contentModifyingState := Some PROCESSING\<rparr>)"

text \<open>Lines 408-411.\<close>

definition onContentModificationFinished :: "ledger \<Rightarrow> string \<Rightarrow> ledger_error + ledger" where
  "onContentModificationFinished s rid =
     remove (update s rid (no_update\<lparr>u_contentModifyingState := Some DONE\<rparr>)) rid"

text \<open>
  The interface of the module (lines 414-423) as a type of calls, and a run of calls from a
  state. A run stops at the first exception.
\<close>

datatype operation =
    OpRecord string string string string RequestTypes tab
  | OpRecordEmulated string string RequestTypes tab "rule option"
  | OpUpdate string context_update
  | OpBindContentRule string rule string
  | OpRequestCompleted string
  | OpContentModificationStarted string
  | OpContentModificationFinished string

fun perform :: "ledger \<Rightarrow> operation \<Rightarrow> ledger_error + ledger" where
  "perform s (OpRecord rid url referrer origin ty tb) =
     Inr (recordRequest s rid url referrer origin ty tb)"
| "perform s (OpRecordEmulated url referrer ty tb rl) = Inr (recordEmulated s url referrer ty tb rl)"
| "perform s (OpUpdate rid u) = Inr (update s rid u)"
| "perform s (OpBindContentRule rid rl el) = Inr (bindContentRule s rid rl el)"
| "perform s (OpRequestCompleted rid) = onRequestCompleted s rid"
| "perform s (OpContentModificationStarted rid) = Inr (onContentModificationStarted s rid)"
| "perform s (OpContentModificationFinished rid) = onContentModificationFinished s rid"

fun run :: "ledger \<Rightarrow> operation list \<Rightarrow> ledger_error + ledger" where
  "run s [] = Inr s"
| "run s (x # xs) = (case perform s x of Inl e \<Rightarrow> Inl e | Inr s' \<Rightarrow> run s' xs)"

section \<open>Safebrowsing filter (the module \<open>purify.safebrowsing\<close>)\<close>

subsection \<open>Strings and the parts the module takes from elsewhere\<close>

text \<open>
  \<open>String.prototype.split\<close> with a separator of one character: the pieces between the
  occurrences of the separator, at least one piece.
\<close>

fun split_on :: "char \<Rightarrow> string \<Rightarrow> string list" where
  "split_on sep [] = [[]]"
| "split_on sep (c # cs) =
     (if c = sep then [] # split_on sep cs
      else (case split_on sep cs of [] \<Rightarrow> [[c]] | p # ps \<Rightarrow> (c # p) # ps))"

text \<open>\<open>Array.prototype.join\<close>.\<close>

fun join_with :: "string \<Rightarrow> string list \<Rightarrow> string" where
  "join_with sep [] = []"
| "join_with sep [p] = p"
| "join_with sep (p # q # ps) = p @ sep @ join_with sep (q # ps)"

text \<open>
  Modelled from the spec: \<open>purify.utils.strings.join\<close> is defined in none of the source
  files. It is called as \<open>join(parts, ".", i, parts.length)\<close> to build the dot-suffix that
  starts at label \<open>i\<close>: the elements from \<open>startIndex\<close> up to, not including, \<open>endIndex\<close>,
  joined by the separator.
\<close>

definition strings_join :: "string list \<Rightarrow> string \<Rightarrow> nat \<Rightarrow> nat \<Rightarrow> string" where
  "strings_join array separator startIndex endIndex =
     join_with separator (take (endIndex - startIndex) (drop startIndex array))"

text \<open>
  \<open>String.prototype.toUpperCase\<close> on the letters of ASCII, which is all a hex digest has; the
  other characters stay.
\<close>

definition upper_char :: "char \<Rightarrow> char" where
  "upper_char c =
     (let n = (of_char c :: nat) in if 97 \<le> n \<and> n \<le> 122 then char_of (n - 32) else c)"

definition toUpperCase :: "string \<Rightarrow> string" where
  "toUpperCase s = map upper_char s"

text \<open>
  The functions which the module calls and no source file defines are parameters:
  \<open>purify.utils.url.getHost\<close> (\<open>None\<close> for \<open>null\<close>), \<open>purify.utils.url.isIpv4\<close> and \<open>isIpv6\<close>, and
  \<open>SHA256.hash\<close>.
\<close>

record collaborators =
  getHost :: "string \<Rightarrow> string option"
  isIpv4 :: "string \<Rightarrow> bool"
  isIpv6 :: "string \<Rightarrow> bool"
  SHA256_hash :: "string \<Rightarrow> string"

text \<open>
  Modelled from the spec: the class \<open>purify.utils.LruCache\<close> behind the long-term cache is
  defined in none of the source files, nor is the library that provides \<open>LRUMap\<close>. The specification
  gives the eviction policy: least recently used, with a fixed capacity. The entries are kept
  most recently used first; reading an entry moves it to the front, writing puts the entry at
  the front and drops what exceeds the capacity.
\<close>

record ('k, 'v) lru =
  capacity :: nat
  entries :: "('k \<times> 'v) list"

definition lru_get :: "('k, 'v) lru \<Rightarrow> 'k \<Rightarrow> 'v option \<times> ('k, 'v) lru" where
  "lru_get c k =
     (case map_of (entries c) k of
        None \<Rightarrow> (None, c)
      | Some v \<Rightarrow> (Some v, c\<lparr>entries := (k, v) # filter (\<lambda>e. fst e \<noteq> k) (entries c)\<rparr>))"

definition lru_set :: "('k, 'v) lru \<Rightarrow> 'k \<Rightarrow> 'v \<Rightarrow> ('k, 'v) lru" where
  "lru_set c k v =
     c\<lparr>entries := take (capacity c) ((k, v) # filter (\<lambda>e. fst e \<noteq> k) (entries c))\<rparr>"

subsection \<open>State and constants\<close>

text \<open>
  The long-term cache \<open>safebrowsingCache.cache\<close> (its keys are hashes, or \<open>undefined\<close> when a
  line of a response has fewer than three fields: \<open>None\<close>), the cache of requests
  \<open>safebrowsingRequestsCache\<close> and the item \<open>safebrowsing-suspended-from\<close> of the local storage
  (\<open>None\<close> when the item is absent). Times are milliseconds, as \<open>Date.now()\<close> counts them.
\<close>

record safebrowsing =
  sbCache :: "(string option, string) lru"
  requestsCache :: "(string, bool) lru"
  suspendedFrom :: "int option"

definition SUSPEND_TTL :: int where
  "SUSPEND_TTL = 40 * 60 * 1000"

definition SB_WHITE_LIST :: string where
  "SB_WHITE_LIST = ''whitelist''"

definition DOMAIN_HASH_LENGTH :: nat where
  "DOMAIN_HASH_LENGTH = 4"

text \<open>A string is truthy when it is not empty.\<close>

definition truthy :: "string option \<Rightarrow> bool" where
  "truthy v = (case v of None \<Rightarrow> False | Some s \<Rightarrow> s \<noteq> [])"

text \<open>The response of the backend, as far as the module reads it.\<close>

record response =
  status :: int
  responseText :: string

text \<open>
  What a call of \<open>lookupUrlWithCallback\<close>, or of one of the two functions it hands to the
  backend, does before it returns: nothing, one call of \<open>lookupUrlCallback\<close> with a list name
  or \<open>null\<close>, or one call of \<open>purify.backend.lookupSafebrowsing\<close> with the short hashes. The
  request carries what its two callbacks have captured: \<open>shortHashes\<close>, \<open>hashesMap\<close> and
  \<open>host\<close>.
\<close>

datatype outcome =
    Silent
  | Callback "string option"
  | BackendRequest "string list" "(string \<times> string) list" string

subsection \<open>The functions of the module\<close>

text \<open>Lines 84-86.\<close>

definition createResponse :: "string \<Rightarrow> string option" where
  "createResponse sbList = (if sbList = SB_WHITE_LIST then None else Some sbList)"

text \<open>Lines 92-94 and 100-102.\<close>

definition resumeSafebrowsing :: "safebrowsing \<Rightarrow> safebrowsing" where
  "resumeSafebrowsing s = s\<lparr>suspendedFrom := None\<rparr>"

definition suspendSafebrowsing :: "safebrowsing \<Rightarrow> int \<Rightarrow> safebrowsing" where
  "suspendSafebrowsing s now = s\<lparr>suspendedFrom := Some now\<rparr>"

text \<open>Lines 110-112.\<close>

definition createHash :: "collaborators \<Rightarrow> string \<Rightarrow> string" where
  "createHash env host = toUpperCase (SHA256_hash env (host @ ''/''))"

text \<open>
  An object without prototype as the list of its properties in the order of their creation,
  which is the order of \<open>Object.keys\<close> for keys that are not array indices (a digest of 64
  hex digits is none). Assigning to an existing property keeps its place.
\<close>

fun object_set :: "(string \<times> string) list \<Rightarrow> string \<Rightarrow> string \<Rightarrow> (string \<times> string) list" where
  "object_set [] k v = [(k, v)]"
| "object_set ((k', v') # ps) k v =
     (if k' = k then (k', v) # ps else (k', v') # object_set ps k v)"

text \<open>Lines 122-132.\<close>

definition createHashesMap :: "collaborators \<Rightarrow> string list \<Rightarrow> (string \<times> string) list" where
  "createHashesMap env hosts = foldl (\<lambda>result host. object_set result (createHash env host) host) [] hosts"

text \<open>
  Lines 48-76. The third field of a line is \<open>undefined\<close> when the line has fewer than three
  fields; as a property name it reads \<open>undefined\<close>. Nothing in the body of the \<open>try\<close> raises.
  The result is the value of \<open>result\<close>, \<open>None\<close> for \<open>undefined\<close> and for \<open>null\<close>.
\<close>

fun processLines ::
  "(string option, string) lru \<Rightarrow> (string \<times> string) list \<Rightarrow> string option \<Rightarrow> string list \<Rightarrow>
     string option \<times> (string option, string) lru" where
  "processLines cache hashesMap result [] = (result, cache)"
| "processLines cache hashesMap result (line # rest) =
     (let r = split_on CHR '':'' line;
          hash = (if 2 < length r then Some (r ! 2) else None);
          list = r ! 0;
          cache' = lru_set cache hash list;
          result' = (if \<not> truthy result
                     then (if truthy (map_of hashesMap (case hash of None \<Rightarrow> ''undefined'' | Some h \<Rightarrow> h))
                           then Some list else result)
                     else result)
      in processLines cache' hashesMap result' rest)"

definition processSbResponse ::
  "(string option, string) lru \<Rightarrow> string \<Rightarrow> (string \<times> string) list \<Rightarrow>
     string option \<times> (string option, string) lru" where
  "processSbResponse cache text hashesMap =
     (if text = [] \<or> 10 * 1024 < length text then (None, cache)
      else processLines cache hashesMap None (split_on CHR 0x0A text))"

text \<open>Lines 141-149.\<close>

fun checkHostsInSbCache ::
  "collaborators \<Rightarrow> (string option, string) lru \<Rightarrow> string list \<Rightarrow>
     string option \<times> (string option, string) lru" where
  "checkHostsInSbCache env cache [] = (None, cache)"
| "checkHostsInSbCache env cache (host # rest) =
     (let (sbList, cache') = lru_get cache (Some (createHash env host))
      in if truthy sbList then (sbList, cache') else checkHostsInSbCache env cache' rest)"

text \<open>Lines 159-176.\<close>

definition extractHosts :: "collaborators \<Rightarrow> string \<Rightarrow> string list" where
  "extractHosts env host =
     (if isIpv4 env host \<or> isIpv6 env host then [host]
      else (let parts = split_on CHR ''.'' host
            in if length parts \<le> 2 then [host]
               else map (\<lambda>i. strings_join parts ''.'' i (length parts))
                      [0 ..< length parts - 2 + 1]))"

text \<open>Line 237: the filter reads the cache of requests once per short hash.\<close>

fun filterChecked ::
  "(string, bool) lru \<Rightarrow> string list \<Rightarrow> string list \<times> (string, bool) lru" where
  "filterChecked cache [] = ([], cache)"
| "filterChecked cache (x # xs) =
     (let (v, cache') = lru_get cache x;
          (ys, cache'') = filterChecked cache' xs
      in (if v = Some True then ys else x # ys, cache''))"

text \<open>
  Lines 203-282, up to the call of the backend. \<open>now\<close> is the value of \<open>Date.now()\<close>. The item
  of the local storage minus zero is falsy when the item is absent and when it is zero.
\<close>

definition lookupUrlWithCallback ::
  "collaborators \<Rightarrow> safebrowsing \<Rightarrow> int \<Rightarrow> string \<Rightarrow> safebrowsing \<times> outcome" where
  "lookupUrlWithCallback env s now url =
     (case getHost env url of
        None \<Rightarrow> (s, Silent)
      | Some host \<Rightarrow>
          if host = [] then (s, Silent)
          else
            (let hosts = extractHosts env host
             in if length hosts = 0 then (s, Silent)
                else
                  (let (sbList, cache1) = checkHostsInSbCache env (sbCache s) hosts;
                       s1 = s\<lparr>sbCache := cache1\<rparr>
                   in if truthy sbList then (s1, Callback (createResponse (the sbList)))
                      else if (case suspendedFrom s1 of None \<Rightarrow> False
                               | Some suspended \<Rightarrow> suspended \<noteq> 0 \<and> now - suspended < SUSPEND_TTL)
                      then (s1, Silent)
                      else
                        (let hashesMap = createHashesMap env hosts;
                             hashes = map fst hashesMap;
                             shortHashes0 = map (take DOMAIN_HASH_LENGTH) hashes;
                             (shortHashes, requests1) = filterChecked (requestsCache s1) shortHashes0;
                             s2 = s1\<lparr>requestsCache := requests1\<rparr>
                         in if length shortHashes = 0
                            then (s2\<lparr>sbCache := lru_set (sbCache s2) (Some (createHash env host))
                                                 SB_WHITE_LIST\<rparr>,
                                  Callback (createResponse SB_WHITE_LIST))
                            else (s2, BackendRequest shortHashes hashesMap host)))))"

text \<open>
  Lines 246-272: the function the backend calls with its response, for the request made with
  \<open>shortHashes\<close>, \<open>hashesMap\<close> and \<open>host\<close>.
\<close>

definition onLookupResponse ::
  "collaborators \<Rightarrow> safebrowsing \<Rightarrow> int \<Rightarrow> string list \<Rightarrow> (string \<times> string) list \<Rightarrow> string \<Rightarrow>
     response \<Rightarrow> safebrowsing \<times> outcome" where
  "onLookupResponse env s now shortHashes hashesMap host resp =
     (if 500 \<le> status resp then (suspendSafebrowsing s now, Silent)
      else
        (let s1 = resumeSafebrowsing s;
             s2 = s1\<lparr>requestsCache := foldl (\<lambda>c x. lru_set c x True) (requestsCache s1) shortHashes\<rparr>;
             (sbList, s3) =
               (if status resp \<noteq> 204
                then (let (r, cache') = processSbResponse (sbCache s2) (responseText resp) hashesMap
                      in (if truthy r then the r else SB_WHITE_LIST, s2\<lparr>sbCache := cache'\<rparr>))
                else (SB_WHITE_LIST, s2))
         in (s3\<lparr>sbCache := lru_set (sbCache s3) (Some (createHash env host)) sbList\<rparr>,
             Callback (createResponse sbList))))"

text \<open>Lines 273-279: the function the backend calls when the request fails.\<close>

definition onLookupError :: "safebrowsing \<Rightarrow> int \<Rightarrow> safebrowsing \<times> outcome" where
  "onLookupError s now = (suspendSafebrowsing s now, Silent)"

text \<open>Lines 324-331.\<close>

definition addToSafebrowsingTrusted :: "collaborators \<Rightarrow> safebrowsing \<Rightarrow> string \<Rightarrow> safebrowsing" where
  "addToSafebrowsingTrusted env s url =
     (case getHost env url of
        None \<Rightarrow> s
      | Some host \<Rightarrow>
          if host = [] then s
          else s\<lparr>sbCache := lru_set (sbCache s) (Some (createHash env host)) SB_WHITE_LIST\<rparr>)"

text \<open>
  What can happen to the module, with the value of \<open>Date.now()\<close> at that moment: a call of
  \<open>lookupUrlWithCallback\<close>, the backend answering a request (the answer comes with what the
  request has captured), or the backend failing. A run of such events from a state gives the
  outcomes in order.
\<close>

datatype event =
    Lookup int string
  | Answer int "string list" "(string \<times> string) list" string response
  | Failure int

fun occur :: "collaborators \<Rightarrow> safebrowsing \<Rightarrow> event \<Rightarrow> safebrowsing \<times> outcome" where
  "occur env s (Lookup now url) = lookupUrlWithCallback env s now url"
| "occur env s (Answer now shortHashes hashesMap host resp) =
     onLookupResponse env s now shortHashes hashesMap host resp"
| "occur env s (Failure now) = onLookupError s now"

fun outcomes :: "collaborators \<Rightarrow> safebrowsing \<Rightarrow> event list \<Rightarrow> outcome list" where
  "outcomes env s [] = []"
| "outcomes env s (e # rest) =
     (let (s', out) = occur env s e in out # outcomes env s' rest)"

section \<open>Stealth service: stripping of tracking parameters (lib/stealth.js)\<close>

subsection \<open>The regular expression\<close>

text \<open>
  Line 556 builds a regular expression from text. The model covers the expressions that
  parameter names without special characters give: a name is then a sequence of characters
  that stand for themselves and of \<open>*\<close>, which line 554 turns into the class \<open>[^&#=]*\<close>. A
  name with one of the characters below gives another expression, or makes \<open>new RegExp\<close>
  raise; the model does not follow the code there and says so in its result.
\<close>

definition special_characters :: "char list" where
  "special_characters =
     [CHR 0x5C, CHR ''^'', CHR ''$'', CHR ''.'', CHR ''|'', CHR ''?'', CHR ''+'', CHR ''('',
      CHR '')'', CHR ''['', CHR '']'', CHR ''{'', CHR ''}'']"

datatype unmodelled = SpecialCharacters

text \<open>
  The two forms of a term of the expression: a character, matched without regard to case
  (flag \<open>i\<close>), and a greedy repetition of a negated class.
\<close>

datatype piece = Chr char | StarNot "char list"

text \<open>
  A text is a list of code units below 256. With flag \<open>i\<close> and without flag \<open>u\<close> the matcher
  compares two code units by their canonical forms: the upper case of the unit where that is
  one code unit, and not an ASCII one for a unit that is not ASCII. Below 256 the letters
  \<open>a\<close> to \<open>z\<close> and the letters from 224 to 254 (without the division sign, 247) have their
  upper case 32 below. The upper cases of 181 and of 255 are above 255 (U+039C and U+0178)
  and the upper case of no other unit below 256, and the upper case of 223 has two units: in
  a comparison of units below 256 these three behave as units that stay as they are.
\<close>

definition canonicalize :: "char \<Rightarrow> char" where
  "canonicalize c =
     (let n = (of_char c :: nat)
      in if (97 \<le> n \<and> n \<le> 122) \<or> (224 \<le> n \<and> n \<le> 254 \<and> n \<noteq> 247)
         then char_of (n - 32) else c)"

text \<open>
  A backtracking matcher. The result lists what is left of the input after each way to match,
  in the order in which the matcher of JavaScript tries them: a repetition takes as many
  characters as it can first, an alternation tries its members from left to right.
\<close>

fun match_piece :: "piece \<Rightarrow> string \<Rightarrow> string list" where
  "match_piece (Chr c) [] = []"
| "match_piece (Chr c) (x # xs) = (if canonicalize x = canonicalize c then [xs] else [])"
| "match_piece (StarNot cs) s =
     map (\<lambda>k. drop k s) (rev [0 ..< length (takeWhile (\<lambda>x. x \<notin> set cs) s) + 1])"

fun match_seq :: "piece list \<Rightarrow> string \<Rightarrow> string list" where
  "match_seq [] s = [s]"
| "match_seq (p # ps) s = concat (map (match_seq ps) (match_piece p s))"

definition match_alt :: "piece list list \<Rightarrow> string \<Rightarrow> string list" where
  "match_alt alts s = concat (map (\<lambda>a. match_seq a s) alts)"

text \<open>
  The expression \<open>((^|&)(name1|name2|...)=[^&#]*)\<close> tried at one position: \<open>at_start\<close> says
  whether the position is the start of the input, where \<open>^\<close> matches, and \<open>s\<close> is the input
  from the position on. The result is the input after the match, if there is one.
\<close>

definition regexp_exec :: "piece list list \<Rightarrow> bool \<Rightarrow> string \<Rightarrow> string option" where
  "regexp_exec alts at_start s =
     (let starts = (if at_start then [s] else []) @
                   (case s of [] \<Rightarrow> [] | c # cs \<Rightarrow> if c = CHR ''&'' then [cs] else []);
          ends = concat (map (\<lambda>s1. concat (map (match_seq [Chr CHR ''='', StarNot ''&#''])
                                               (match_alt alts s1))) starts)
      in case ends of [] \<Rightarrow> None | r # rs \<Rightarrow> Some r)"

text \<open>
  \<open>String.prototype.replace\<close> with the expression, the flag \<open>g\<close> and the empty string: the
  search goes on where the last match ended; where there is no match the character is kept.
  After an empty match the search moves on by one character (this expression has none).
\<close>

fun replace_all :: "piece list list \<Rightarrow> bool \<Rightarrow> string \<Rightarrow> string" where
  "replace_all alts at_start s =
     (case regexp_exec alts at_start s of
        Some r \<Rightarrow>
          if length r < length s then replace_all alts False r
          else (case s of [] \<Rightarrow> [] | c # cs \<Rightarrow> c # replace_all alts False cs)
      | None \<Rightarrow> (case s of [] \<Rightarrow> [] | c # cs \<Rightarrow> c # replace_all alts False cs))"

declare replace_all.simps [simp del]

subsection \<open>The setting and the url\<close>

text \<open>
  \<open>String.prototype.trim\<close> removes white space and line terminators at both ends. Among the
  code units below 256 these are the tabulators, line feed, form feed, carriage return, the
  space and the no-break space (160).
\<close>

definition whitespace :: "char \<Rightarrow> bool" where
  "whitespace c =
     (c \<in> set [CHR 0x09, CHR 0x0A, CHR 0x0B, CHR 0x0C, CHR 0x0D, CHR '' '', CHR 0xA0])"

definition trim :: "string \<Rightarrow> string" where
  "trim s = rev (dropWhile whitespace (rev (dropWhile whitespace s)))"

text \<open>
  Lines 550-555: the names of the setting. \<open>replace("=", "")\<close> removes the first \<open>=\<close>. The text
  that replaces \<open>*\<close> has no white space, so the last \<open>trim\<close> acts on the name.
\<close>

definition trackingParameterNames :: "string \<Rightarrow> string list" where
  "trackingParameterNames setting =
     filter (\<lambda>x. x \<noteq> [])
       (map (\<lambda>x. trim (remove1 CHR ''='' x)) (split_on CHR '','' (trim setting)))"

text \<open>
  Lines 556-559: the members of the alternation. Joining no name gives the empty text, and
  the empty group matches the empty name.
\<close>

definition trackingParametersRegExp :: "string \<Rightarrow> unmodelled + piece list list" where
  "trackingParametersRegExp setting =
     (let names = trackingParameterNames setting
      in if \<exists>name \<in> set names. \<exists>c \<in> set name. c \<in> set special_characters
         then Inl SpecialCharacters
         else Inr (if names = [] then [[]]
                   else map (map (\<lambda>c. if c = CHR ''*'' then StarNot ''&#='' else Chr c)) names))"

text \<open>
  Lines 543-583 without the two calls to collaborators: the url returned, or \<open>None\<close> for
  \<open>null\<close>.
\<close>

definition stripTrackingParameters :: "string \<Rightarrow> string \<Rightarrow> unmodelled + string option" where
  "stripTrackingParameters setting url =
     (let urlPieces = split_on CHR ''?'' url
      in if length urlPieces = 1 then Inr None
         else
           (case trackingParametersRegExp setting of
              Inl e \<Rightarrow> Inl e
            | Inr alts \<Rightarrow>
                (let query = dropWhile (\<lambda>c. c = CHR ''&'') (replace_all alts True (urlPieces ! 1));
                     urlPieces' = urlPieces[1 := query];
                     result = (if query \<noteq> [] then join_with ''?'' urlPieces' else urlPieces' ! 0)
                 in if result \<noteq> url then Inr (Some result) else Inr None)))"

text \<open>The default of the setting, from the module of the settings.\<close>

definition DEFAULT_TRACKING_PARAMETERS :: string where
  "DEFAULT_TRACKING_PARAMETERS =
     ''utm_source,utm_medium,utm_term,utm_campaign,utm_content,utm_name,utm_cid,utm_reader,utm_viz_id,utm_pubreferrer,utm_swu,utm_referrer,utm_social,utm_social-type,utm_place,utm_userid,utm_channel,fb_action_ids,fb_action_types,fb_ref,fb_source''"

subsection \<open>The function of the service\<close>

text \<open>
  The settings the function reads and the collaborators it asks are parameters; no source file
  defines \<open>purify.frames\<close> or \<open>purify.requestFilter\<close>, nor the method \<open>isDocumentWhiteList\<close> of a
  rule.
\<close>

record stealth_environment =
  DISABLE_STEALTH_MODE :: bool
  isFilteringDisabled :: bool
  STRIP_TRACKING_PARAMETERS :: bool
  TRACKING_PARAMETERS :: string
  shouldStopRequestProcess :: "tab \<Rightarrow> bool"
  getMainFrameUrl :: "tab \<Rightarrow> string option"
  findWhiteListRule :: "string \<Rightarrow> string \<Rightarrow> RequestTypes \<Rightarrow> rule option"
  findStealthWhiteListRule :: "string \<Rightarrow> string \<Rightarrow> RequestTypes \<Rightarrow> rule option"
  isDocumentWhiteList :: "rule \<Rightarrow> bool"

definition STRIPPED_TRACKING_URL :: nat where
  "STRIPPED_TRACKING_URL = 2 ^ 4"

text \<open>Lines 102-107 and 114-119, for the one setting read here.\<close>

definition isStealthModeDisabled :: "stealth_environment \<Rightarrow> bool" where
  "isStealthModeDisabled env = (DISABLE_STEALTH_MODE env \<or> isFilteringDisabled env)"

definition getStealthSettingValue_STRIP_TRACKING_PARAMETERS :: "stealth_environment \<Rightarrow> bool" where
  "getStealthSettingValue_STRIP_TRACKING_PARAMETERS env =
     (if isStealthModeDisabled env then False else STRIP_TRACKING_PARAMETERS env)"

text \<open>Lines 365-394.\<close>

definition findStealthWhitelistRule ::
  "stealth_environment \<Rightarrow> string \<Rightarrow> string \<Rightarrow> RequestTypes \<Rightarrow> rule option" where
  "findStealthWhitelistRule env url referrer ty =
     (case findStealthWhiteListRule env referrer referrer ty of
        Some r \<Rightarrow> if isDocumentWhiteList env r then Some r
                  else findStealthWhiteListRule env url referrer ty
      | None \<Rightarrow> findStealthWhiteListRule env url referrer ty)"

text \<open>
  Lines 487-584. The calls to the filtering log go to the calls of the request context
  storage, whose context the function reads.
\<close>

definition removeTrackersFromUrl ::
  "stealth_environment \<Rightarrow> ledger \<Rightarrow> string \<Rightarrow> ledger \<times> (unmodelled + string option)" where
  "removeTrackersFromUrl env s rid =
     (if \<not> getStealthSettingValue_STRIP_TRACKING_PARAMETERS env then (s, Inr None)
      else
        (case get s rid of
           None \<Rightarrow> (s, Inr None)
         | Some c \<Rightarrow>
             if requestType c \<noteq> DOCUMENT then (s, Inr None)
             else if shouldStopRequestProcess env (tab c) then (s, Inr None)
             else
               (case getMainFrameUrl env (tab c) of
                  None \<Rightarrow> (s, Inr None)
                | Some mainFrameUrl \<Rightarrow>
                    if mainFrameUrl = [] then (s, Inr None)
                    else if (case findWhiteListRule env (requestUrl c) mainFrameUrl (requestType c) of
                               None \<Rightarrow> False | Some r \<Rightarrow> isDocumentWhiteList env r)
                    then (s, Inr None)
                    else
                      (case findStealthWhitelistRule env (requestUrl c) mainFrameUrl
                              (requestType c) of
                         Some r \<Rightarrow>
                           (s\<lparr>calls := calls s @
                                [AddHttpRequestEvent (tab c) (requestUrl c) mainFrameUrl
                                   (requestType c) (Some r) None]\<rparr>,
                            Inr None)
                       | None \<Rightarrow>
                           (case stripTrackingParameters (TRACKING_PARAMETERS env) (requestUrl c) of
                              Inl e \<Rightarrow> (s, Inl e)
                            | Inr None \<Rightarrow> (s, Inr None)
                            | Inr (Some result) \<Rightarrow>
                                (s\<lparr>calls := calls s @
                                     [BindStealthActionsToHttpRequestEvent (tab c)
                                        STRIPPED_TRACKING_URL (eventId c)]\<rparr>,
                                 Inr (Some result)))))))"

section \<open>Invariants, expected behaviour and sample states\<close>

subsection \<open>Request context storage\<close>

text \<open>
  Line 351 needs the map of elements as soon as there is a content rule. \<open>bindContentRule\<close>
  is the only writer of either, and creates the map with the first rule.
\<close>

definition context_ok :: "request_context \<Rightarrow> bool" where
  "context_ok c = (contentRules c = None \<or> elements c \<noteq> None)"

text \<open>
  The invariant of the module state: every stored context is as above, and its event
  identifier has been handed out by the counter.
\<close>

definition ledger_ok :: "ledger \<Rightarrow> bool" where
  "ledger_ok s = (\<forall>rid c. contexts s rid = Some c \<longrightarrow> context_ok c \<and> eventId c \<le> nextEventId s)"

text \<open>
  What a flush of each axis is expected to send, in the words of the specification: for the
  network axis the bound request rule, one CSP event per CSP rule and the stealth actions,
  then a rule hit per rule; for the content axis the bound replace rules and one cosmetic
  event per attached element, then the rule hits as lines 346 and 363 collect them.
\<close>

definition the_rules :: "rule list option \<Rightarrow> rule list" where
  "the_rules rs = (case rs of None \<Rightarrow> [] | Some xs \<Rightarrow> xs)"

definition network_artifacts :: "request_context \<Rightarrow> call list" where
  "network_artifacts c =
     (case requestRule c of None \<Rightarrow> []
      | Some r \<Rightarrow> [BindRuleToHttpRequestEvent (tab c) (Some r) (eventId c)])
     @ map (\<lambda>r. AddHttpRequestEvent (tab c) (requestUrl c) (referrerUrl c) CSP (Some r) None)
         (the_rules (cspRules c))
     @ (case stealthActions c of None \<Rightarrow> []
        | Some a \<Rightarrow> if a = 0 then []
                    else [BindStealthActionsToHttpRequestEvent (tab c) a (eventId c)])"

definition network_hits :: "request_context \<Rightarrow> call list" where
  "network_hits c =
     map (\<lambda>h. RecordRuleHit (tab c) h (requestUrl c))
       ((case requestRule c of None \<Rightarrow> [] | Some r \<Rightarrow> [HitRule r])
        @ map HitRule (the_rules (cspRules c)))"

definition content_artifacts :: "request_context \<Rightarrow> call list" where
  "content_artifacts c =
     (case replaceRules c of None \<Rightarrow> []
      | Some rs \<Rightarrow> [BindReplaceRulesToHttpRequestEvent (tab c) rs (eventId c)])
     @ fst (cosmeticEvents (tab c) (requestUrl c) (requestType c) (the_rules (contentRules c))
              (case elements c of None \<Rightarrow> Map.empty | Some m \<Rightarrow> m))"

definition content_hits :: "request_context \<Rightarrow> call list" where
  "content_hits c =
     map (\<lambda>h. RecordRuleHit (tab c) h (requestUrl c))
       ((case replaceRules c of None \<Rightarrow> [] | Some rs \<Rightarrow> [HitRuleArray rs])
        @ map HitRule (the_rules (contentRules c)))"

text \<open>Operations other than \<open>record\<close>.\<close>

fun is_record :: "operation \<Rightarrow> bool" where
  "is_record (OpRecord rid url referrer origin ty tb) = True"
| "is_record _ = False"

text \<open>
  A sample state: one document request with a request rule, two replace rules, a CSP rule,
  a stealth action and one content rule with an element.
\<close>

definition example_tab :: tab where
  "example_tab = \<lparr>tabId = 7\<rparr>"

definition example_ledger :: ledger where
  "example_ledger =
     bindContentRule
       (update
          (recordRequest initial_ledger ''42'' ''http://example.org/'' ''http://ref.example/''
             '''' DOCUMENT example_tab)
          ''42''
          (no_update\<lparr>u_requestRule := Some (Some (Rule 1)),
                      u_replaceRules := Some (Some [Rule 2, Rule 3]),
                      u_cspRules := Some (Some [Rule 4]),
                      u_stealthActions := Some (Some 8)\<rparr>))
       ''42'' (Rule 5) ''<div>''"

definition example_context :: request_context where
  "example_context =
     \<lparr>requestId = ''42'', requestUrl = ''http://example.org/'',
      referrerUrl = ''http://ref.example/'', originUrl = '''', requestType = DOCUMENT,
      tab = example_tab, eventId = 1, requestState = PROCESSING, contentModifyingState = NONE,
      requestRule = Some (Rule 1), replaceRules = Some [Rule 2, Rule 3],
      cspRules = Some [Rule 4], contentRules = Some [Rule 5],
      elements = Some [Rule 5 \<mapsto> [''<div>'']], stealthActions = Some 8,
      requestHeaders = None, responseHeaders = None,
      modifiedRequestHeaders = None, modifiedResponseHeaders = None\<rparr>"

subsection \<open>Safebrowsing filter\<close>

text \<open>
  The hosts of a url miss the long-term cache: no extracted host has a truthy value under its
  hash. The cache is given by its content, which reading does not change.
\<close>

definition cacheMiss :: "collaborators \<Rightarrow> (string option \<rightharpoonup> string) \<Rightarrow> string \<Rightarrow> bool" where
  "cacheMiss env m url =
     (case getHost env url of
        None \<Rightarrow> True
      | Some host \<Rightarrow>
          (\<forall>h \<in> set (extractHosts env host). \<not> truthy (m (Some (createHash env h)))))"

text \<open>The condition of line 225.\<close>

definition suspended :: "safebrowsing \<Rightarrow> int \<Rightarrow> bool" where
  "suspended s now =
     (case suspendedFrom s of None \<Rightarrow> False | Some t \<Rightarrow> t \<noteq> 0 \<and> now - t < SUSPEND_TTL)"

text \<open>The outcomes that call the backend.\<close>

fun is_BackendRequest :: "outcome \<Rightarrow> bool" where
  "is_BackendRequest (BackendRequest shortHashes hashesMap host) = True"
| "is_BackendRequest _ = False"

text \<open>
  The time of an event, and the events that end a suspension: the answers with a status below
  500 (line 257).
\<close>

fun time_of :: "event \<Rightarrow> int" where
  "time_of (Lookup now url) = now"
| "time_of (Answer now shortHashes hashesMap host resp) = now"
| "time_of (Failure now) = now"

fun resumes :: "event \<Rightarrow> bool" where
  "resumes (Answer now shortHashes hashesMap host resp) = (status resp < 500)"
| "resumes _ = False"

text \<open>
  The words of the specification for a host that is no address: every right-hand dot-suffix of
  the host down to and including the root of two labels, the most specific first. The suffix
  that starts at label \<open>i\<close> has the labels from \<open>i\<close> on; the last one starts at the last label
  but one.
\<close>

definition dot_suffixes :: "string \<Rightarrow> string list" where
  "dot_suffixes host =
     (let parts = split_on CHR ''.'' host
      in map (\<lambda>i. join_with ''.'' (drop i parts)) [0 ..< length parts - 1])"

text \<open>
  Sample collaborators: the host of a url is what lies between \<open>http://\<close> and the next
  slash, one address is known, and the digest is the identity. A sample state: one host on a
  list, one short hash already asked.
\<close>

definition example_collaborators :: collaborators where
  "example_collaborators =
     \<lparr>getHost = (\<lambda>url. if take 7 url = ''http://''
                        then Some (takeWhile (\<lambda>c. c \<noteq> CHR ''/'') (drop 7 url)) else None),
      isIpv4 = (\<lambda>host. host = ''1.2.3.4''),
      isIpv6 = (\<lambda>host. False),
      SHA256_hash = (\<lambda>s. s)\<rparr>"

definition example_safebrowsing :: safebrowsing where
  "example_safebrowsing =
     \<lparr>sbCache = \<lparr>capacity = 1000, entries = [(Some ''EVIL.COM/'', ''malware'')]\<rparr>,
      requestsCache = \<lparr>capacity = 1000, entries = [(''GOOD'', True)]\<rparr>,
      suspendedFrom = None\<rparr>"

subsection \<open>Stealth service\<close>

text \<open>
  A segment is what lies before the next \<open>&\<close> or \<open>#\<close>. For names without \<open>&\<close> and \<open>#\<close> a match
  of the expression is a whole segment, with the \<open>&\<close> before it if there is one: the name and
  the \<open>=\<close> lie within the segment, and the value runs to its end.
\<close>

definition seg :: "string \<Rightarrow> string" where
  "seg s = takeWhile (\<lambda>x. x \<noteq> CHR ''&'' \<and> x \<noteq> CHR ''#'') s"

definition after_seg :: "string \<Rightarrow> string" where
  "after_seg s = dropWhile (\<lambda>x. x \<noteq> CHR ''&'' \<and> x \<noteq> CHR ''#'') s"

text \<open>The terms that cannot take \<open>&\<close> or \<open>#\<close>.\<close>

fun piece_ok :: "piece \<Rightarrow> bool" where
  "piece_ok (Chr c) = (c \<noteq> CHR ''&'' \<and> c \<noteq> CHR ''#'')"
| "piece_ok (StarNot cs) = (CHR ''&'' \<in> set cs \<and> CHR ''#'' \<in> set cs)"

definition alts_ok :: "piece list list \<Rightarrow> bool" where
  "alts_ok alts = (\<forall>a \<in> set alts. \<forall>p \<in> set a. piece_ok p)"

text \<open>A segment starts with a name of the setting and \<open>=\<close>.\<close>

definition tracked :: "piece list list \<Rightarrow> string \<Rightarrow> bool" where
  "tracked alts t = (\<exists>r \<in> set (match_alt alts t). r \<noteq> [] \<and> hd r = CHR ''='')"

text \<open>Where a segment ends: at the end of the input, or before \<open>&\<close> or \<open>#\<close>.\<close>

definition boundary :: "string \<Rightarrow> bool" where
  "boundary rest = (case rest of [] \<Rightarrow> True | x # xs \<Rightarrow> x = CHR ''&'' \<or> x = CHR ''#'')"

text \<open>
  A setting without special characters and without \<open>&\<close> and \<open>#\<close>; letters, digits, \<open>_\<close>, \<open>-\<close>,
  \<open>*\<close>, \<open>=\<close>, the comma and white space are among the characters it may have.
\<close>

definition plain_setting :: "string \<Rightarrow> bool" where
  "plain_setting setting =
     (\<forall>c \<in> set setting. c \<notin> set special_characters \<and> c \<noteq> CHR ''&'' \<and> c \<noteq> CHR ''#'')"

text \<open>The expression matches at no position of the input.\<close>

fun no_match :: "piece list list \<Rightarrow> bool \<Rightarrow> string \<Rightarrow> bool" where
  "no_match alts at_start [] = (regexp_exec alts at_start [] = None)"
| "no_match alts at_start (c # cs) =
     (regexp_exec alts at_start (c # cs) = None \<and> no_match alts False cs)"

section \<open>Properties of the request context storage\<close>

lemma recordRequest_contexts:
  "contexts (recordRequest s rid url referrer origin ty tb) =
     (contexts s)(rid \<mapsto> \<lparr>requestId = rid, requestUrl = url, referrerUrl = referrer,
                 originUrl = origin, requestType = ty, tab = tb, eventId = nextEventId s + 1,
                 requestState = PROCESSING, contentModifyingState = NONE,
                 requestRule = None, replaceRules = None, cspRules = None,
                 contentRules = None, elements = None, stealthActions = None,
                 requestHeaders = None, responseHeaders = None,
                 modifiedRequestHeaders = None, modifiedResponseHeaders = None\<rparr>)"
  by (simp add: recordRequest_def getNextEventId_def Let_def)

lemma recordRequest_nextEventId:
  "nextEventId (recordRequest s rid url referrer origin ty tb) = nextEventId s + 1"
  by (simp add: recordRequest_def getNextEventId_def Let_def)

lemma recordRequest_calls:
  "calls (recordRequest s rid url referrer origin ty tb) =
     calls s @ (if ty = DOCUMENT \<and> contexts s rid = None
                then [ClearEventsByTabId (tabId tb)] else [])
       @ [AddHttpRequestEvent tb url referrer ty None (Some (nextEventId s + 1))]"
  by (simp add: recordRequest_def getNextEventId_def Let_def)

lemma updateContext_eventId: "eventId (fst (updateContext c u)) = eventId c"
  by (simp add: updateContext_def Let_def split: option.splits)

lemma updateContext_ok: "context_ok c \<Longrightarrow> context_ok (fst (updateContext c u))"
  by (simp add: updateContext_def Let_def context_ok_def split: option.splits)

lemma update_nextEventId: "nextEventId (update s rid u) = nextEventId s"
  by (simp add: update_def split: option.splits prod.splits)

lemma update_contexts:
  "contexts (update s rid u) rid' =
     (if rid' = rid then map_option (\<lambda>c. fst (updateContext c u)) (contexts s rid)
      else contexts s rid')"
  by (simp add: update_def split: option.splits prod.splits)

lemma bindContentRule_nextEventId: "nextEventId (bindContentRule s rid rl el) = nextEventId s"
  by (simp add: bindContentRule_def Let_def split: option.splits)

lemma bindContentRule_contexts:
  "contexts (bindContentRule s rid rl el) rid' = Some c' \<Longrightarrow>
     \<exists>c. contexts s rid' = Some c \<and> eventId c' = eventId c \<and> (context_ok c \<longrightarrow> context_ok c')"
  by (auto simp add: bindContentRule_def Let_def context_ok_def split: option.splits if_splits)

lemma removeRequestPart_fields:
  "removeRequestPart c = (c', l, h) \<Longrightarrow>
     eventId c' = eventId c \<and> contentRules c' = contentRules c \<and> elements c' = elements c
     \<and> contentModifyingState c' = contentModifyingState c \<and> replaceRules c' = replaceRules c
     \<and> tab c' = tab c \<and> requestUrl c' = requestUrl c \<and> requestType c' = requestType c"
  by (auto simp add: removeRequestPart_def Let_def split: if_splits prod.splits)

lemma removeContentPart_ok:
  "context_ok c \<Longrightarrow> \<exists>c' l h. removeContentPart c = Inr (c', l, h) \<and> eventId c' = eventId c
      \<and> context_ok c' \<and> requestState c' = requestState c"
  by (auto simp add: removeContentPart_def Let_def context_ok_def
      split: option.splits list.splits prod.splits)

lemma remove_ok:
  assumes "\<forall>c. contexts s rid = Some c \<longrightarrow> context_ok c"
  shows "\<exists>s'. remove s rid = Inr s' \<and> nextEventId s' = nextEventId s
     \<and> (\<forall>rid' c'. contexts s' rid' = Some c' \<longrightarrow>
           (\<exists>c. contexts s rid' = Some c \<and> eventId c' = eventId c \<and> (context_ok c \<longrightarrow> context_ok c')))"
proof (cases "contexts s rid")
  case None
  then show ?thesis by (simp add: remove_def)
next
  case (Some c)
  with assms have ok: "context_ok c" by simp
  obtain c1 l1 h1 where r1: "removeRequestPart c = (c1, l1, h1)"
    by (cases "removeRequestPart c") auto
  from removeRequestPart_fields [OF r1] ok have ok1: "context_ok c1" and e1: "eventId c1 = eventId c"
    by (simp_all add: context_ok_def)
  from removeContentPart_ok [OF ok1] obtain c2 l2 h2 where
    r2: "removeContentPart c1 = Inr (c2, l2, h2)" and e2: "eventId c2 = eventId c1"
    and ok2: "context_ok c2" by blast
  show ?thesis using Some r1 r2 e1 e2 ok2
    by (auto simp add: remove_def Let_def split: if_splits)
qed

lemma perform_ok:
  assumes "ledger_ok s"
  shows "\<exists>s'. perform s x = Inr s' \<and> ledger_ok s' \<and> nextEventId s \<le> nextEventId s'"
proof (cases x)
  case (OpRecord rid url referrer origin ty tb)
  then show ?thesis using assms
    by (auto simp add: ledger_ok_def recordRequest_contexts recordRequest_nextEventId
        context_ok_def le_SucI split: if_splits)
next
  case (OpRecordEmulated url referrer ty tb rl)
  then show ?thesis using assms by (simp add: ledger_ok_def recordEmulated_def)
next
  case (OpUpdate rid u)
  then show ?thesis using assms
    by (auto simp add: ledger_ok_def update_contexts update_nextEventId updateContext_eventId
        updateContext_ok split: if_splits)
next
  case (OpBindContentRule rid rl el)
  then show ?thesis using assms
    by (auto simp add: ledger_ok_def bindContentRule_nextEventId dest!: bindContentRule_contexts)
next
  case (OpRequestCompleted rid)
  let ?s1 = "update s rid (no_update\<lparr>u_requestState := Some DONE\<rparr>)"
  have ok1: "ledger_ok ?s1" using assms
    by (auto simp add: ledger_ok_def update_contexts update_nextEventId updateContext_eventId
        updateContext_ok split: if_splits)
  then have "\<forall>c. contexts ?s1 rid = Some c \<longrightarrow> context_ok c" by (simp add: ledger_ok_def)
  from remove_ok [OF this] obtain s' where r: "remove ?s1 rid = Inr s'"
    and n: "nextEventId s' = nextEventId ?s1"
    and c: "\<forall>rid' c'. contexts s' rid' = Some c' \<longrightarrow>
           (\<exists>c. contexts ?s1 rid' = Some c \<and> eventId c' = eventId c \<and> (context_ok c \<longrightarrow> context_ok c'))"
    by blast
  have "ledger_ok s'" unfolding ledger_ok_def
  proof (intro allI impI)
    fix rid' c' assume "contexts s' rid' = Some c'"
    with c obtain c0 where "contexts ?s1 rid' = Some c0" "eventId c' = eventId c0"
      "context_ok c0 \<longrightarrow> context_ok c'" by blast
    with ok1 n show "context_ok c' \<and> eventId c' \<le> nextEventId s'" by (simp add: ledger_ok_def)
  qed
  with r n OpRequestCompleted show ?thesis
    by (simp add: onRequestCompleted_def update_nextEventId)
next
  case (OpContentModificationStarted rid)
  then show ?thesis using assms
    by (auto simp add: ledger_ok_def onContentModificationStarted_def update_contexts
        update_nextEventId updateContext_eventId updateContext_ok split: if_splits)
next
  case (OpContentModificationFinished rid)
  let ?s1 = "update s rid (no_update\<lparr>u_contentModifyingState := Some DONE\<rparr>)"
  have ok1: "ledger_ok ?s1" using assms
    by (auto simp add: ledger_ok_def update_contexts update_nextEventId updateContext_eventId
        updateContext_ok split: if_splits)
  then have "\<forall>c. contexts ?s1 rid = Some c \<longrightarrow> context_ok c" by (simp add: ledger_ok_def)
  from remove_ok [OF this] obtain s' where r: "remove ?s1 rid = Inr s'"
    and n: "nextEventId s' = nextEventId ?s1"
    and c: "\<forall>rid' c'. contexts s' rid' = Some c' \<longrightarrow>
           (\<exists>c. contexts ?s1 rid' = Some c \<and> eventId c' = eventId c \<and> (context_ok c \<longrightarrow> context_ok c'))"
    by blast
  have "ledger_ok s'" unfolding ledger_ok_def
  proof (intro allI impI)
    fix rid' c' assume "contexts s' rid' = Some c'"
    with c obtain c0 where "contexts ?s1 rid' = Some c0" "eventId c' = eventId c0"
      "context_ok c0 \<longrightarrow> context_ok c'" by blast
    with ok1 n show "context_ok c' \<and> eventId c' \<le> nextEventId s'" by (simp add: ledger_ok_def)
  qed
  with r n OpContentModificationFinished show ?thesis
    by (simp add: onContentModificationFinished_def update_nextEventId)
qed

lemma run_ok:
  "ledger_ok s \<Longrightarrow> \<exists>s'. run s xs = Inr s' \<and> ledger_ok s' \<and> nextEventId s \<le> nextEventId s'"
proof (induction xs arbitrary: s)
  case Nil
  then show ?case by simp
next
  case (Cons x xs)
  from perform_ok [OF Cons.prems, of x] obtain s1 where
    p: "perform s x = Inr s1" "ledger_ok s1" "nextEventId s \<le> nextEventId s1" by blast
  from Cons.IH [OF p(2)] obtain s2 where
    "run s1 xs = Inr s2" "ledger_ok s2" "nextEventId s1 \<le> nextEventId s2" by blast
  with p show ?case by auto
qed

lemma initial_ledger_ok: "ledger_ok initial_ledger"
  by (simp add: ledger_ok_def initial_ledger_def)

lemma recordRequest_ok:
  "ledger_ok s \<Longrightarrow> ledger_ok (recordRequest s rid url referrer origin ty tb)"
  using perform_ok [of s "OpRecord rid url referrer origin ty tb"] by simp

lemma removeContentPart_eventId:
  "removeContentPart c = Inr (c', l, h) \<Longrightarrow> eventId c' = eventId c"
  by (auto simp add: removeContentPart_def Let_def
      split: if_splits option.splits list.splits prod.splits)

lemma remove_keeps_eventId:
  assumes "remove s rid = Inr s'" "contexts s' rid' = Some c'"
  shows "\<exists>c. contexts s rid' = Some c \<and> eventId c' = eventId c"
proof (cases "contexts s rid")
  case None
  with assms show ?thesis by (simp add: remove_def)
next
  case (Some c)
  obtain c1 l1 h1 where r1: "removeRequestPart c = (c1, l1, h1)"
    by (cases "removeRequestPart c") auto
  show ?thesis
  proof (cases "removeContentPart c1")
    case (Inl e)
    with assms Some r1 show ?thesis by (simp add: remove_def)
  next
    case (Inr t)
    obtain c2 l2 h2 where t: "t = (c2, l2, h2)" by (cases t) auto
    from removeRequestPart_fields [OF r1] removeContentPart_eventId [of c1 c2 l2 h2] Inr t
    have "eventId c2 = eventId c" by simp
    with assms Some r1 Inr t show ?thesis
      by (auto simp add: remove_def Let_def split: if_splits)
  qed
qed

lemma perform_keeps_eventId:
  assumes "\<not> is_record x" "perform s x = Inr s'" "contexts s' rid = Some c'"
  shows "\<exists>c. contexts s rid = Some c \<and> eventId c' = eventId c"
proof (cases x)
  case (OpRecord rid url referrer origin ty tb)
  with assms show ?thesis by simp
next
  case (OpRecordEmulated url referrer ty tb rl)
  with assms show ?thesis by (auto simp add: recordEmulated_def)
next
  case (OpUpdate r u)
  with assms show ?thesis
    by (auto simp add: update_contexts updateContext_eventId split: if_splits)
next
  case (OpBindContentRule r rl el)
  with assms show ?thesis by (auto dest!: bindContentRule_contexts)
next
  case (OpRequestCompleted r)
  with assms have "remove (update s r (no_update\<lparr>u_requestState := Some DONE\<rparr>)) r = Inr s'"
    by (simp add: onRequestCompleted_def)
  from remove_keeps_eventId [OF this assms(3)] show ?thesis
    by (auto simp add: update_contexts updateContext_eventId split: if_splits)
next
  case (OpContentModificationStarted r)
  with assms show ?thesis
    by (auto simp add: onContentModificationStarted_def update_contexts updateContext_eventId
        split: if_splits)
next
  case (OpContentModificationFinished r)
  with assms have
    "remove (update s r (no_update\<lparr>u_contentModifyingState := Some DONE\<rparr>)) r = Inr s'"
    by (simp add: onContentModificationFinished_def)
  from remove_keeps_eventId [OF this assms(3)] show ?thesis
    by (auto simp add: update_contexts updateContext_eventId split: if_splits)
qed

lemma removeRequestPart_DONE:
  "requestState c = DONE \<Longrightarrow>
   \<exists>h. removeRequestPart c = (c\<lparr>requestState := NONE\<rparr>, network_artifacts c, h) \<and>
       map (\<lambda>h. RecordRuleHit (tab c) h (requestUrl c)) h = network_hits c"
  by (simp add: removeRequestPart_def network_artifacts_def network_hits_def the_rules_def
      Let_def split: option.splits)

lemma removeRequestPart_other:
  "requestState c \<noteq> DONE \<Longrightarrow> removeRequestPart c = (c, [], [])"
  by (simp add: removeRequestPart_def)

lemma removeContentPart_DONE:
  assumes "contentModifyingState c = DONE" "context_ok c"
  shows "\<exists>e h. removeContentPart c =
             Inr (c\<lparr>contentModifyingState := NONE, elements := e\<rparr>, content_artifacts c, h) \<and>
       map (\<lambda>h. RecordRuleHit (tab c) h (requestUrl c)) h = content_hits c"
proof (cases "contentRules c")
  case None
  have "c\<lparr>contentModifyingState := NONE\<rparr> = c\<lparr>contentModifyingState := NONE, elements := elements c\<rparr>"
    by simp
  with None assms(1) show ?thesis
    by (intro exI [of _ "elements c"])
       (simp add: removeContentPart_def content_artifacts_def content_hits_def the_rules_def
        Let_def split: option.splits)
next
  case (Some rs)
  show ?thesis
  proof (cases rs)
    case Nil
    have "c\<lparr>contentModifyingState := NONE\<rparr> = c\<lparr>contentModifyingState := NONE, elements := elements c\<rparr>"
      by simp
    with Nil Some assms(1) show ?thesis
      by (intro exI [of _ "elements c"])
         (simp add: removeContentPart_def content_artifacts_def content_hits_def the_rules_def
          Let_def split: option.splits)
  next
    case (Cons r rs')
    from assms(2) Some obtain els where els: "elements c = Some els"
      by (auto simp add: context_ok_def)
    obtain l2 els' where ce: "cosmeticEvents (tab c) (requestUrl c) (requestType c) (r # rs') els
       = (l2, els')" by (cases "cosmeticEvents (tab c) (requestUrl c) (requestType c) (r # rs') els")
    show ?thesis using Cons Some assms(1) els ce
      by (intro exI [of _ "Some els'"])
         (simp add: removeContentPart_def content_artifacts_def content_hits_def the_rules_def
          Let_def del: cosmeticEvents.simps split: option.splits)
  qed
qed

lemma removeContentPart_other:
  "contentModifyingState c \<noteq> DONE \<Longrightarrow> removeContentPart c = Inr (c, [], [])"
  by (simp add: removeContentPart_def)

lemma update_requestState:
  "contexts s rid = Some c \<Longrightarrow>
   update s rid (no_update\<lparr>u_requestState := Some st\<rparr>) =
     s\<lparr>contexts := (contexts s)(rid \<mapsto> c\<lparr>requestState := st\<rparr>)\<rparr>"
  by (simp add: update_def updateContext_def no_update_def Let_def)

lemma update_contentModifyingState:
  "contexts s rid = Some c \<Longrightarrow>
   update s rid (no_update\<lparr>u_contentModifyingState := Some st\<rparr>) =
     s\<lparr>contexts := (contexts s)(rid \<mapsto> c\<lparr>contentModifyingState := st\<rparr>)\<rparr>"
  by (simp add: update_def updateContext_def no_update_def Let_def)

lemma update_absent: "contexts s rid = None \<Longrightarrow> update s rid u = s"
  by (simp add: update_def)

lemma remove_absent: "contexts s rid = None \<Longrightarrow> remove s rid = Inr s"
  by (simp add: remove_def)

lemma onRequestCompleted_present:
  assumes "contexts s rid = Some c" "contentModifyingState c \<noteq> DONE"
  shows "\<exists>s'. onRequestCompleted s rid = Inr s' \<and>
           calls s' = calls s @ network_artifacts c @ network_hits c \<and>
           nextEventId s' = nextEventId s \<and>
           contexts s' = (if contentModifyingState c = NONE then (contexts s)(rid := None)
                          else (contexts s)(rid \<mapsto> c\<lparr>requestState := NONE\<rparr>))"
proof -
  let ?c = "c\<lparr>requestState := DONE\<rparr>"
  from removeRequestPart_DONE [of ?c] obtain h where
    r: "removeRequestPart ?c = (?c\<lparr>requestState := NONE\<rparr>, network_artifacts ?c, h)"
    and h: "map (\<lambda>h. RecordRuleHit (tab ?c) h (requestUrl ?c)) h = network_hits ?c" by auto
  have n: "network_artifacts ?c = network_artifacts c" "network_hits ?c = network_hits c"
    by (simp_all add: network_artifacts_def network_hits_def split: option.splits)
  show ?thesis using assms r h n
    by (simp add: onRequestCompleted_def update_requestState remove_def
        removeContentPart_other Let_def)
qed

lemma onContentModificationFinished_present:
  assumes "contexts s rid = Some c" "requestState c \<noteq> DONE" "context_ok c"
  shows "\<exists>s' e. onContentModificationFinished s rid = Inr s' \<and>
           calls s' = calls s @ content_artifacts c @ content_hits c \<and>
           nextEventId s' = nextEventId s \<and>
           contexts s' = (if requestState c = NONE then (contexts s)(rid := None)
                          else (contexts s)(rid \<mapsto>
                                 c\<lparr>contentModifyingState := NONE, elements := e\<rparr>))"
proof -
  let ?c = "c\<lparr>contentModifyingState := DONE\<rparr>"
  have ok: "context_ok ?c" using assms(3) by (simp add: context_ok_def)
  from removeContentPart_DONE [of ?c, OF _ ok] obtain e h where
    r: "removeContentPart ?c = Inr (?c\<lparr>contentModifyingState := NONE, elements := e\<rparr>,
          content_artifacts ?c, h)"
    and h: "map (\<lambda>h. RecordRuleHit (tab ?c) h (requestUrl ?c)) h = content_hits ?c"
    by auto
  have st: "?c\<lparr>contentModifyingState := NONE, elements := e\<rparr> =
     c\<lparr>contentModifyingState := NONE, elements := e\<rparr>" by simp
  have n: "content_artifacts ?c = content_artifacts c" "content_hits ?c = content_hits c"
    by (simp_all add: content_artifacts_def content_hits_def split: option.splits)
  show ?thesis using assms(1,2) r h n
    by (intro exI [of _ e] exI [of _ "projr (onContentModificationFinished s rid)"])
       (simp add: onContentModificationFinished_def update_contentModifyingState remove_def
        removeRequestPart_other Let_def)
qed

lemma onContentModificationStarted_present:
  "contexts s rid = Some c \<Longrightarrow>
   onContentModificationStarted s rid =
     s\<lparr>contexts := (contexts s)(rid \<mapsto> c\<lparr>contentModifyingState := PROCESSING\<rparr>)\<rparr>"
  by (simp add: onContentModificationStarted_def update_contentModifyingState)

text \<open>
  Claim C1, as amended. Let a context have its network axis PROCESSING and its content axis NONE,
  as \<open>record\<close> leaves it. When \<open>onContentModificationStarted\<close> comes before
  \<open>onRequestCompleted\<close>, then in both remaining orders each axis is flushed exactly once, the
  context is still stored after the first of the two flushes (the other axis reads PROCESSING)
  and is deleted by the second. When \<open>onRequestCompleted\<close> comes first, it flushes the
  network axis and deletes the context at once; the two content calls that follow change
  nothing and send nothing.
\<close>

theorem both_axes_flushed_once:
  assumes "contexts s rid = Some c" "requestState c = PROCESSING"
    "contentModifyingState c = NONE" "context_ok c"
  shows "(\<exists>s2 s3 c2.
            onRequestCompleted (onContentModificationStarted s rid) rid = Inr s2 \<and>
            calls s2 = calls s @ network_artifacts c @ network_hits c \<and>
            contexts s2 rid = Some c2 \<and> requestState c2 = NONE \<and>
            contentModifyingState c2 = PROCESSING \<and>
            onContentModificationFinished s2 rid = Inr s3 \<and>
            calls s3 = calls s2 @ content_artifacts c @ content_hits c \<and>
            contexts s3 rid = None)
       \<and> (\<exists>s2 s3 c2.
            onContentModificationFinished (onContentModificationStarted s rid) rid = Inr s2 \<and>
            calls s2 = calls s @ content_artifacts c @ content_hits c \<and>
            contexts s2 rid = Some c2 \<and> requestState c2 = PROCESSING \<and>
            contentModifyingState c2 = NONE \<and>
            onRequestCompleted s2 rid = Inr s3 \<and>
            calls s3 = calls s2 @ network_artifacts c @ network_hits c \<and>
            contexts s3 rid = None)
       \<and> (\<exists>s1.
            onRequestCompleted s rid = Inr s1 \<and>
            calls s1 = calls s @ network_artifacts c @ network_hits c \<and>
            contexts s1 rid = None \<and>
            onContentModificationStarted s1 rid = s1 \<and>
            onContentModificationFinished s1 rid = Inr s1)"
proof (intro conjI)
  let ?s1 = "onContentModificationStarted s rid"
  let ?c1 = "c\<lparr>contentModifyingState := PROCESSING\<rparr>"
  have s1: "?s1 = s\<lparr>contexts := (contexts s)(rid \<mapsto> ?c1)\<rparr>"
    using assms(1) by (rule onContentModificationStarted_present)
  have c1: "contexts ?s1 rid = Some ?c1" by (simp add: s1)
  have art: "network_artifacts ?c1 = network_artifacts c" "network_hits ?c1 = network_hits c"
    "content_artifacts ?c1 = content_artifacts c" "content_hits ?c1 = content_hits c"
    by (simp_all add: network_artifacts_def network_hits_def content_artifacts_def
        content_hits_def split: option.splits)
  have ok1: "context_ok ?c1" using assms(4) by (simp add: context_ok_def)
  show "\<exists>s2 s3 c2.
            onRequestCompleted ?s1 rid = Inr s2 \<and>
            calls s2 = calls s @ network_artifacts c @ network_hits c \<and>
            contexts s2 rid = Some c2 \<and> requestState c2 = NONE \<and>
            contentModifyingState c2 = PROCESSING \<and>
            onContentModificationFinished s2 rid = Inr s3 \<and>
            calls s3 = calls s2 @ content_artifacts c @ content_hits c \<and>
            contexts s3 rid = None"
  proof -
    from onRequestCompleted_present [OF c1] obtain s2 where
      a: "onRequestCompleted ?s1 rid = Inr s2"
      "calls s2 = calls ?s1 @ network_artifacts ?c1 @ network_hits ?c1"
      "contexts s2 = (contexts ?s1)(rid \<mapsto> ?c1\<lparr>requestState := NONE\<rparr>)"
      by auto
    let ?c2 = "?c1\<lparr>requestState := NONE\<rparr>"
    have c2: "contexts s2 rid = Some ?c2" by (simp add: a(3))
    have ok2: "context_ok ?c2" using assms(4) by (simp add: context_ok_def)
    have art2: "content_artifacts ?c2 = content_artifacts c" "content_hits ?c2 = content_hits c"
      by (simp_all add: content_artifacts_def content_hits_def split: option.splits)
    from onContentModificationFinished_present [OF c2 _ ok2] obtain s3 where
      b: "onContentModificationFinished s2 rid = Inr s3"
      "calls s3 = calls s2 @ content_artifacts ?c2 @ content_hits ?c2"
      "contexts s3 = (contexts s2)(rid := None)"
      by auto
    show ?thesis using a b c2 art art2 by (simp add: s1)
  qed
  show "\<exists>s2 s3 c2.
            onContentModificationFinished ?s1 rid = Inr s2 \<and>
            calls s2 = calls s @ content_artifacts c @ content_hits c \<and>
            contexts s2 rid = Some c2 \<and> requestState c2 = PROCESSING \<and>
            contentModifyingState c2 = NONE \<and>
            onRequestCompleted s2 rid = Inr s3 \<and>
            calls s3 = calls s2 @ network_artifacts c @ network_hits c \<and>
            contexts s3 rid = None"
  proof -
    have "requestState ?c1 \<noteq> DONE" using assms(2) by simp
    from onContentModificationFinished_present [OF c1 this ok1] obtain s2 e where
      a: "onContentModificationFinished ?s1 rid = Inr s2"
      "calls s2 = calls ?s1 @ content_artifacts ?c1 @ content_hits ?c1"
      "contexts s2 = (if requestState ?c1 = NONE then (contexts ?s1)(rid := None)
                      else (contexts ?s1)(rid \<mapsto>
                             ?c1\<lparr>contentModifyingState := NONE, elements := e\<rparr>))"
      by blast
    define c2 where "c2 = ?c1\<lparr>contentModifyingState := NONE, elements := e\<rparr>"
    note e = c2_def
    have c2: "contexts s2 rid = Some c2" using a(3) assms(2) by (simp add: c2_def)
    have st2: "contentModifyingState c2 = NONE" "requestState c2 = PROCESSING"
      using e assms(2) by simp_all
    have art2: "network_artifacts c2 = network_artifacts c" "network_hits c2 = network_hits c"
      by (simp_all add: e network_artifacts_def network_hits_def split: option.splits)
    have "contentModifyingState c2 \<noteq> DONE" using st2 by simp
    from onRequestCompleted_present [OF c2 this] obtain s3 where
      b: "onRequestCompleted s2 rid = Inr s3"
      "calls s3 = calls s2 @ network_artifacts c2 @ network_hits c2"
      "contexts s3 = (contexts s2)(rid := None)"
      using st2 by auto
    show ?thesis using a(1,2) b c2 st2 art art2 by (simp add: s1)
  qed
  show "\<exists>s1.
            onRequestCompleted s rid = Inr s1 \<and>
            calls s1 = calls s @ network_artifacts c @ network_hits c \<and>
            contexts s1 rid = None \<and>
            onContentModificationStarted s1 rid = s1 \<and>
            onContentModificationFinished s1 rid = Inr s1"
  proof -
    have "contentModifyingState c \<noteq> DONE" using assms(3) by simp
    from onRequestCompleted_present [OF assms(1) this] obtain s1 where
      a: "onRequestCompleted s rid = Inr s1"
      "calls s1 = calls s @ network_artifacts c @ network_hits c"
      "contexts s1 = (contexts s)(rid := None)"
      using assms(3) by auto
    have "contexts s1 rid = None" by (simp add: a(3))
    then show ?thesis using a
      by (simp add: onContentModificationStarted_def onContentModificationFinished_def
          update_absent remove_absent)
  qed
qed

lemma example_ledger_eq:
  "example_ledger = \<lparr>contexts = [''42'' \<mapsto> example_context], nextEventId = 1,
     calls = [ClearEventsByTabId 7,
              AddHttpRequestEvent example_tab ''http://example.org/'' ''http://ref.example/''
                DOCUMENT None (Some 1),
              BindRuleToHttpRequestEvent example_tab (Some (Rule 1)) 1]\<rparr>"
  by (simp add: example_ledger_def example_context_def bindContentRule_def update_def
      updateContext_def recordRequest_def getNextEventId_def initial_ledger_def no_update_def
      appendRules_def example_tab_def Let_def)

text \<open>The sample state satisfies the hypotheses; the calls of the first order in full.\<close>

theorem both_axes_flushed_once_witness:
  "contexts example_ledger ''42'' = Some example_context \<and>
   requestState example_context = PROCESSING \<and>
   contentModifyingState example_context = NONE \<and> context_ok example_context \<and>
   (\<exists>s2 s3. onRequestCompleted (onContentModificationStarted example_ledger ''42'') ''42''
        = Inr s2 \<and> contexts s2 ''42'' \<noteq> None \<and>
      onContentModificationFinished s2 ''42'' = Inr s3 \<and> contexts s3 ''42'' = None \<and>
      calls s3 = calls example_ledger @
        [BindRuleToHttpRequestEvent example_tab (Some (Rule 1)) 1,
         AddHttpRequestEvent example_tab ''http://example.org/'' ''http://ref.example/''
           CSP (Some (Rule 4)) None,
         BindStealthActionsToHttpRequestEvent example_tab 8 1,
         RecordRuleHit example_tab (HitRule (Rule 1)) ''http://example.org/'',
         RecordRuleHit example_tab (HitRule (Rule 4)) ''http://example.org/'',
         BindReplaceRulesToHttpRequestEvent example_tab [Rule 2, Rule 3] 1,
         AddCosmeticEvent example_tab ''<div>'' ''http://example.org/'' DOCUMENT (Rule 5),
         RecordRuleHit example_tab (HitRuleArray [Rule 2, Rule 3]) ''http://example.org/'',
         RecordRuleHit example_tab (HitRule (Rule 5)) ''http://example.org/''])"
proof -
  have h1: "contexts example_ledger ''42'' = Some example_context"
    by (simp add: example_ledger_eq)
  have h2: "requestState example_context = PROCESSING"
    and h3: "contentModifyingState example_context = NONE"
    and h4: "context_ok example_context"
    by (simp_all add: example_context_def context_ok_def)
  have a: "network_artifacts example_context @ network_hits example_context =
        [BindRuleToHttpRequestEvent example_tab (Some (Rule 1)) 1,
         AddHttpRequestEvent example_tab ''http://example.org/'' ''http://ref.example/''
           CSP (Some (Rule 4)) None,
         BindStealthActionsToHttpRequestEvent example_tab 8 1,
         RecordRuleHit example_tab (HitRule (Rule 1)) ''http://example.org/'',
         RecordRuleHit example_tab (HitRule (Rule 4)) ''http://example.org/'']"
    by (simp add: network_artifacts_def network_hits_def example_context_def the_rules_def)
  have b: "content_artifacts example_context @ content_hits example_context =
        [BindReplaceRulesToHttpRequestEvent example_tab [Rule 2, Rule 3] 1,
         AddCosmeticEvent example_tab ''<div>'' ''http://example.org/'' DOCUMENT (Rule 5),
         RecordRuleHit example_tab (HitRuleArray [Rule 2, Rule 3]) ''http://example.org/'',
         RecordRuleHit example_tab (HitRule (Rule 5)) ''http://example.org/'']"
    by (simp add: content_artifacts_def content_hits_def example_context_def the_rules_def)
  from both_axes_flushed_once [OF h1 h2 h3 h4] obtain s2 s3 c2 where
    "onRequestCompleted (onContentModificationStarted example_ledger ''42'') ''42'' = Inr s2"
    "calls s2 = calls example_ledger @ network_artifacts example_context
        @ network_hits example_context"
    "contexts s2 ''42'' = Some c2"
    "onContentModificationFinished s2 ''42'' = Inr s3"
    "calls s3 = calls s2 @ content_artifacts example_context @ content_hits example_context"
    "contexts s3 ''42'' = None" by blast
  with a b h1 h2 h3 h4 show ?thesis by simp
qed

text \<open>
  Claim C1 as stated fails for the order in which the request completes first: the replace
  rules bound to the context are never sent to the filtering log, and the context is gone
  before the content axis was ever flushed.
\<close>

theorem completion_first_drops_content_flush:
  "run initial_ledger
     [OpRecord ''42'' ''http://example.org/'' [] [] DOCUMENT example_tab,
      OpUpdate ''42'' (no_update\<lparr>u_replaceRules := Some (Some [Rule 2])\<rparr>),
      OpRequestCompleted ''42'',
      OpContentModificationStarted ''42'',
      OpContentModificationFinished ''42'']
   = Inr \<lparr>contexts = Map.empty, nextEventId = 1,
           calls = [ClearEventsByTabId 7,
                    AddHttpRequestEvent example_tab ''http://example.org/'' [] DOCUMENT None
                      (Some 1)]\<rparr>"
  by (simp add: recordRequest_def getNextEventId_def initial_ledger_def update_def
      updateContext_def no_update_def onRequestCompleted_def remove_def removeRequestPart_def
      removeContentPart_def onContentModificationStarted_def onContentModificationFinished_def
      example_tab_def Let_def)

text \<open>
  Claim C3 at a context with two replace rules: the flush of the content axis calls
  \<open>recordRuleHit\<close> once, with the array of both rules as its argument, and never with
  either rule.
\<close>

theorem replace_rules_hit_is_one_array:
  "run initial_ledger
     [OpRecord ''42'' ''http://example.org/'' [] [] DOCUMENT example_tab,
      OpContentModificationStarted ''42'',
      OpUpdate ''42'' (no_update\<lparr>u_replaceRules := Some (Some [Rule 2, Rule 3])\<rparr>),
      OpRequestCompleted ''42'',
      OpContentModificationFinished ''42'']
   = Inr \<lparr>contexts = Map.empty, nextEventId = 1,
           calls = [ClearEventsByTabId 7,
                    AddHttpRequestEvent example_tab ''http://example.org/'' [] DOCUMENT None
                      (Some 1),
                    BindReplaceRulesToHttpRequestEvent example_tab [Rule 2, Rule 3] 1,
                    RecordRuleHit example_tab (HitRuleArray [Rule 2, Rule 3])
                      ''http://example.org/'']\<rparr>"
  by (simp add: recordRequest_def getNextEventId_def initial_ledger_def update_def
      updateContext_def no_update_def onRequestCompleted_def remove_def removeRequestPart_def
      removeContentPart_def onContentModificationStarted_def onContentModificationFinished_def
      example_tab_def Let_def)

text \<open>
  Claim C2. \<open>record\<close> sends \<open>clearEventsByTabId\<close> exactly when the request type is DOCUMENT
  and the identifier has no context, and always ends with one \<open>addHttpRequestEvent\<close> that
  carries the new event identifier. Two calls in a row for one identifier: the second sends
  that single event and nothing else, its context has the next event identifier and the second
  url, and is stored under the same identifier, the set of identifiers being unchanged.
\<close>

theorem record_clears_log_only_for_new_document:
  "calls (recordRequest s rid url referrer origin ty tb) =
     calls s @ (if ty = DOCUMENT \<and> contexts s rid = None
                then [ClearEventsByTabId (tabId tb)] else [])
       @ [AddHttpRequestEvent tb url referrer ty None (Some (nextEventId s + 1))]
   \<and> (\<exists>s1 s2 c1 c2.
         s1 = recordRequest s rid urlA refA orgA tyA tbA \<and>
         s2 = recordRequest s1 rid urlB refB orgB tyB tbB \<and>
         calls s2 = calls s1 @ [AddHttpRequestEvent tbB urlB refB tyB None (Some (eventId c2))] \<and>
         contexts s1 rid = Some c1 \<and> contexts s2 rid = Some c2 \<and>
         eventId c1 = nextEventId s + 1 \<and> eventId c2 = nextEventId s + 2 \<and>
         requestId c2 = rid \<and> requestUrl c2 = urlB \<and>
         dom (contexts s2) = dom (contexts s1))"
  by (simp add: recordRequest_calls recordRequest_contexts recordRequest_nextEventId)



text \<open>
  Claim C9. From a state that satisfies the invariant, \<open>record\<close> gives its context the next
  value of the counter, which is greater than the event identifier of every stored context;
  whatever calls follow, they raise no exception, and a later \<open>record\<close>, for the same or for
  another identifier, gives a strictly greater event identifier, again greater than that of
  every stored context. No call other than \<open>record\<close> changes the event identifier of a
  context.
\<close>

theorem eventId_strictly_increasing:
  assumes "ledger_ok s"
  shows "(\<exists>s1 c1 s2 s3 c2.
           s1 = recordRequest s rid1 url1 ref1 org1 ty1 tb1 \<and> contexts s1 rid1 = Some c1 \<and>
           eventId c1 = nextEventId s + 1 \<and>
           (\<forall>rid c. contexts s rid = Some c \<longrightarrow> eventId c < eventId c1) \<and>
           run s1 xs = Inr s2 \<and>
           s3 = recordRequest s2 rid2 url2 ref2 org2 ty2 tb2 \<and> contexts s3 rid2 = Some c2 \<and>
           eventId c1 < eventId c2 \<and>
           (\<forall>rid c. contexts s2 rid = Some c \<longrightarrow> eventId c < eventId c2))
       \<and> (\<forall>x s' rid c'. \<not> is_record x \<and> perform s x = Inr s' \<and> contexts s' rid = Some c' \<longrightarrow>
             (\<exists>c. contexts s rid = Some c \<and> eventId c' = eventId c))"
proof
  let ?s1 = "recordRequest s rid1 url1 ref1 org1 ty1 tb1"
  have ok1: "ledger_ok ?s1" using assms by (rule recordRequest_ok)
  from run_ok [OF ok1, of xs] obtain s2 where r: "run ?s1 xs = Inr s2" and ok2: "ledger_ok s2"
    and le: "nextEventId ?s1 \<le> nextEventId s2" by blast
  have old: "\<forall>rid c. contexts s rid = Some c \<longrightarrow> eventId c < nextEventId s + 1"
    using assms by (auto simp add: ledger_ok_def less_Suc_eq_le)
  have old2: "\<forall>rid c. contexts s2 rid = Some c \<longrightarrow> eventId c < nextEventId s2 + 1"
    using ok2 by (auto simp add: ledger_ok_def less_Suc_eq_le)
  show "\<exists>s1 c1 s2 s3 c2.
           s1 = recordRequest s rid1 url1 ref1 org1 ty1 tb1 \<and> contexts s1 rid1 = Some c1 \<and>
           eventId c1 = nextEventId s + 1 \<and>
           (\<forall>rid c. contexts s rid = Some c \<longrightarrow> eventId c < eventId c1) \<and>
           run s1 xs = Inr s2 \<and>
           s3 = recordRequest s2 rid2 url2 ref2 org2 ty2 tb2 \<and> contexts s3 rid2 = Some c2 \<and>
           eventId c1 < eventId c2 \<and>
           (\<forall>rid c. contexts s2 rid = Some c \<longrightarrow> eventId c < eventId c2)"
    using r le old old2
    by (simp add: recordRequest_contexts recordRequest_nextEventId)
next
  show "\<forall>x s' rid c'. \<not> is_record x \<and> perform s x = Inr s' \<and> contexts s' rid = Some c' \<longrightarrow>
             (\<exists>c. contexts s rid = Some c \<and> eventId c' = eventId c)"
    using perform_keeps_eventId by blast
qed

text \<open>The sample state; the second \<open>record\<close> reuses the identifier of a stored context.\<close>

theorem eventId_strictly_increasing_witness:
  "ledger_ok example_ledger \<and>
   (\<exists>s1 c1 s2 c2.
      s1 = recordRequest example_ledger ''43'' ''http://a.example/'' '''' '''' IMAGE example_tab \<and>
      contexts s1 ''43'' = Some c1 \<and> eventId c1 = 2 \<and>
      run s1 [OpRequestCompleted ''43'', OpContentModificationStarted ''42''] = Inr s2 \<and>
      contexts (recordRequest s2 ''42'' ''http://b.example/'' '''' '''' DOCUMENT example_tab)
        ''42'' = Some c2 \<and>
      eventId c1 < eventId c2)"
proof -
  have h: "ledger_ok example_ledger"
    by (simp add: ledger_ok_def example_ledger_eq example_context_def context_ok_def)
  have n: "nextEventId example_ledger = 1" by (simp add: example_ledger_eq)
  from eventId_strictly_increasing [OF h, of "''43''" "''http://a.example/''" "''''" "''''" IMAGE
      example_tab "[OpRequestCompleted ''43'', OpContentModificationStarted ''42'']"
      "''42''" "''http://b.example/''" "''''" "''''" DOCUMENT example_tab] h n
  show ?thesis by auto
qed

section \<open>Properties of the safebrowsing filter\<close>

lemma map_of_filter_other:
  "map_of (filter (\<lambda>e. fst e \<noteq> k) xs) k' = (if k' = k then None else map_of xs k')"
  by (induction xs) auto

lemma lru_get_eq:
  "fst (lru_get c k) = map_of (entries c) k"
  "map_of (entries (snd (lru_get c k))) = map_of (entries c)"
  "capacity (snd (lru_get c k)) = capacity c"
  by (auto simp add: lru_get_def map_of_filter_other fun_eq_iff split: option.splits)

lemma lru_set_get:
  "0 < capacity c \<Longrightarrow> map_of (entries (lru_set c k v)) k = Some v"
  by (cases "capacity c") (simp_all add: lru_set_def)

lemma checkHostsInSbCache_frame:
  "map_of (entries (snd (checkHostsInSbCache env cache hosts))) = map_of (entries cache) \<and>
   capacity (snd (checkHostsInSbCache env cache hosts)) = capacity cache"
proof (induction hosts arbitrary: cache)
  case Nil
  then show ?case by simp
next
  case (Cons h hosts)
  show ?case
    using Cons.IH [of "snd (lru_get cache (Some (createHash env h)))"]
      lru_get_eq(2,3) [of cache "Some (createHash env h)"]
    by (simp add: split_beta)
qed

lemma checkHostsInSbCache_miss:
  "\<forall>h \<in> set hosts. \<not> truthy (map_of (entries cache) (Some (createHash env h))) \<Longrightarrow>
   \<not> truthy (fst (checkHostsInSbCache env cache hosts))"
proof (induction hosts arbitrary: cache)
  case Nil
  then show ?case by (simp add: truthy_def)
next
  case (Cons h hosts)
  have "\<forall>h' \<in> set hosts. \<not> truthy (map_of (entries (snd (lru_get cache (Some (createHash env h)))))
           (Some (createHash env h')))"
    using Cons.prems by (simp add: lru_get_eq)
  from Cons.IH [OF this] Cons.prems lru_get_eq(1) [of cache "Some (createHash env h)"]
  show ?case by (simp add: split_beta)
qed

lemma checkHostsInSbCache_hit:
  assumes "\<forall>h' \<in> set pre. \<not> truthy (map_of (entries cache) (Some (createHash env h')))"
    and "truthy (map_of (entries cache) (Some (createHash env h)))"
  shows "fst (checkHostsInSbCache env cache (pre @ h # post)) =
           map_of (entries cache) (Some (createHash env h))"
  using assms
proof (induction pre arbitrary: cache)
  case Nil
  then show ?case using lru_get_eq(1) [of cache "Some (createHash env h)"]
    by (simp add: split_beta)
next
  case (Cons p pre)
  let ?c = "snd (lru_get cache (Some (createHash env p)))"
  have "\<forall>h' \<in> set pre. \<not> truthy (map_of (entries ?c) (Some (createHash env h')))"
    and "truthy (map_of (entries ?c) (Some (createHash env h)))"
    using Cons.prems by (simp_all add: lru_get_eq)
  from Cons.IH [OF this] Cons.prems lru_get_eq(1) [of cache "Some (createHash env p)"]
  show ?case by (simp add: split_beta lru_get_eq)
qed

lemma filterChecked_eq:
  "fst (filterChecked cache xs) = filter (\<lambda>x. map_of (entries cache) x \<noteq> Some True) xs \<and>
   map_of (entries (snd (filterChecked cache xs))) = map_of (entries cache) \<and>
   capacity (snd (filterChecked cache xs)) = capacity cache"
proof (induction xs arbitrary: cache)
  case Nil
  then show ?case by simp
next
  case (Cons x xs)
  show ?case
    using Cons.IH [of "snd (lru_get cache x)"] lru_get_eq [of cache x]
    by (simp add: split_beta)
qed

lemma object_set_keys:
  "set (map fst (object_set ps k v)) = insert k (set (map fst ps))"
  by (induction ps k v rule: object_set.induct) auto

lemma createHashesMap_keys:
  "set (map fst (createHashesMap env hosts)) = createHash env ` set hosts"
proof -
  have "set (map fst (foldl (\<lambda>result host. object_set result (createHash env host) host) acc hosts))
         = set (map fst acc) \<union> createHash env ` set hosts" for acc
  proof (induction hosts arbitrary: acc)
    case Nil
    then show ?case by simp
  next
    case (Cons h hosts)
    from Cons [of "object_set acc (createHash env h) h"] object_set_keys [of acc "createHash env h" h]
    show ?case by auto
  qed
  from this [of "[]"] show ?thesis by (simp add: createHashesMap_def)
qed

lemma extractHosts_nonempty: "extractHosts env host \<noteq> []"
  by (simp add: extractHosts_def Let_def)

lemma lookup_cached:
  assumes "getHost env url = Some host" "host \<noteq> []"
    "truthy (fst (checkHostsInSbCache env (sbCache s) (extractHosts env host)))"
  shows "lookupUrlWithCallback env s now url =
           (s\<lparr>sbCache := snd (checkHostsInSbCache env (sbCache s) (extractHosts env host))\<rparr>,
            Callback (createResponse
              (the (fst (checkHostsInSbCache env (sbCache s) (extractHosts env host))))))"
  using assms extractHosts_nonempty [of env host]
  by (simp add: lookupUrlWithCallback_def Let_def split_beta)

lemma lookup_suspended:
  assumes "getHost env url = Some host" "host \<noteq> []"
    "\<not> truthy (fst (checkHostsInSbCache env (sbCache s) (extractHosts env host)))"
    "suspended s now"
  shows "lookupUrlWithCallback env s now url =
           (s\<lparr>sbCache := snd (checkHostsInSbCache env (sbCache s) (extractHosts env host))\<rparr>,
            Silent)"
  using assms extractHosts_nonempty [of env host]
  by (simp add: lookupUrlWithCallback_def Let_def split_beta suspended_def)

lemma lookup_no_host:
  "getHost env url = None \<or> getHost env url = Some [] \<Longrightarrow>
   lookupUrlWithCallback env s now url = (s, Silent)"
  by (auto simp add: lookupUrlWithCallback_def)

lemma suspended_lookup:
  assumes "suspendedFrom s = Some t" "t \<noteq> 0" "now - t < SUSPEND_TTL"
  shows "\<exists>s' out. lookupUrlWithCallback env s now url = (s', out) \<and>
           suspendedFrom s' = Some t \<and> requestsCache s' = requestsCache s \<and>
           map_of (entries (sbCache s')) = map_of (entries (sbCache s)) \<and>
           \<not> is_BackendRequest out \<and>
           (cacheMiss env (map_of (entries (sbCache s))) url \<longrightarrow> out = Silent)"
proof (cases "getHost env url = None \<or> getHost env url = Some []")
  case True
  from lookup_no_host [OF this] assms show ?thesis by simp
next
  case False
  then obtain host where h: "getHost env url = Some host" "host \<noteq> []" by auto
  have sus: "suspended s now" using assms by (simp add: suspended_def)
  show ?thesis
  proof (cases "truthy (fst (checkHostsInSbCache env (sbCache s) (extractHosts env host)))")
    case True
    have "\<not> cacheMiss env (map_of (entries (sbCache s))) url"
      using True h checkHostsInSbCache_miss [of "extractHosts env host" "sbCache s" env]
      by (auto simp add: cacheMiss_def)
    with lookup_cached [OF h True] assms show ?thesis
      by (simp add: checkHostsInSbCache_frame)
  next
    case False
    from lookup_suspended [OF h False sus] assms show ?thesis
      by (simp add: checkHostsInSbCache_frame)
  qed
qed

lemma suspended_events:
  assumes "suspendedFrom s = Some t" "0 < t0" "t0 \<le> t"
    "\<forall>e \<in> set later. t0 \<le> time_of e \<and> time_of e - t0 < SUSPEND_TTL \<and> \<not> resumes e"
    "map_of (entries (sbCache s)) = m"
  shows "length (outcomes env s later) = length later \<and>
         (\<forall>i < length later. \<not> is_BackendRequest (outcomes env s later ! i) \<and>
            (\<forall>now url. later ! i = Lookup now url \<and> cacheMiss env m url \<longrightarrow>
               outcomes env s later ! i = Silent))"
  using assms(1,3,4,5)
proof (induction later arbitrary: s t)
  case Nil
  then show ?case by simp
next
  case (Cons e later)
  have rest: "\<forall>e \<in> set later. t0 \<le> time_of e \<and> time_of e - t0 < SUSPEND_TTL \<and> \<not> resumes e"
    using Cons.prems(3) by simp
  have "\<exists>s' out t'. occur env s e = (s', out) \<and> suspendedFrom s' = Some t' \<and> t0 \<le> t' \<and>
          map_of (entries (sbCache s')) = m \<and> \<not> is_BackendRequest out \<and>
          (\<forall>now url. e = Lookup now url \<and> cacheMiss env m url \<longrightarrow> out = Silent)"
  proof (cases e)
    case (Lookup now url)
    with Cons.prems(3) have "t0 \<le> now" "now - t0 < SUSPEND_TTL" by simp_all
    with Cons.prems(2) have w: "now - t < SUSPEND_TTL" by simp
    have "t \<noteq> 0" using assms(2) Cons.prems(2) by simp
    from suspended_lookup [OF Cons.prems(1) this w, of env url] Lookup Cons.prems(2,4)
    show ?thesis by auto
  next
    case (Answer now shortHashes hashesMap host resp)
    with Cons.prems(3) have "t0 \<le> now" "500 \<le> status resp" by simp_all
    with Answer Cons.prems(4) show ?thesis
      by (simp add: onLookupResponse_def suspendSafebrowsing_def)
  next
    case (Failure now)
    with Cons.prems(3) have "t0 \<le> now" by simp
    with Failure Cons.prems(4) show ?thesis
      by (simp add: onLookupError_def suspendSafebrowsing_def)
  qed
  then obtain s' out t' where
    l: "occur env s e = (s', out)" "suspendedFrom s' = Some t'" "t0 \<le> t'"
    "map_of (entries (sbCache s')) = m" "\<not> is_BackendRequest out"
    "\<forall>now url. e = Lookup now url \<and> cacheMiss env m url \<longrightarrow> out = Silent" by blast
  from Cons.IH [OF l(2) l(3) rest l(4)]
  have ih: "length (outcomes env s' later) = length later"
    "\<forall>i < length later. \<not> is_BackendRequest (outcomes env s' later ! i) \<and>
       (\<forall>now url. later ! i = Lookup now url \<and> cacheMiss env m url \<longrightarrow>
          outcomes env s' later ! i = Silent)"
    by simp_all
  have o: "outcomes env s (e # later) = out # outcomes env s' later" using l(1) by simp
  show ?case
  proof (intro conjI allI impI)
    show "length (outcomes env s (e # later)) = length (e # later)" using o ih(1) by simp
  next
    fix i assume "i < length (e # later)"
    then show "\<not> is_BackendRequest (outcomes env s (e # later) ! i)"
      using o l(5) ih(2) by (cases i) simp_all
  next
    fix i now url
    assume "i < length (e # later)" "(e # later) ! i = Lookup now url \<and> cacheMiss env m url"
    then show "outcomes env s (e # later) ! i = Silent"
      using o l(6) ih(2) by (cases i) auto
  qed
qed

text \<open>
  Any response with a status below 500 ends the suspension, also the response to a lookup that
  was made before the suspension began.
\<close>

lemma other_response_resumes:
  "status resp < 500 \<Longrightarrow>
   suspendedFrom (fst (onLookupResponse env s now shortHashes hashesMap host resp)) = None"
  by (simp add: onLookupResponse_def resumeSafebrowsing_def Let_def split_beta)

text \<open>
  Claim C4, as amended. The response handler, given a status of 500 or more at a time after the
  epoch, stores that time as the start of the suspension, writes to neither cache and does not
  call back. Take any events that follow, none of them earlier than that time, all of them
  within the window of the suspension, and none of them an answer with a status below 500
  (lookups, answers with a status of 500 or more, failures of the backend): no lookup among
  them calls the backend, and every lookup whose hosts miss the long-term cache returns
  without calling back.
\<close>

theorem server_error_suspends_lookups:
  assumes "500 \<le> status resp" "0 < now"
    "\<forall>e \<in> set later. now \<le> time_of e \<and> time_of e - now < SUSPEND_TTL \<and> \<not> resumes e"
  shows "\<exists>s'. onLookupResponse env s now shortHashes hashesMap host resp = (s', Silent) \<and>
           suspendedFrom s' = Some now \<and> sbCache s' = sbCache s \<and>
           requestsCache s' = requestsCache s \<and>
           length (outcomes env s' later) = length later \<and>
           (\<forall>i < length later. \<not> is_BackendRequest (outcomes env s' later ! i) \<and>
              (\<forall>t url. later ! i = Lookup t url \<and>
                 cacheMiss env (map_of (entries (sbCache s))) url \<longrightarrow>
                 outcomes env s' later ! i = Silent))"
proof -
  let ?s' = "suspendSafebrowsing s now"
  have r: "onLookupResponse env s now shortHashes hashesMap host resp = (?s', Silent)"
    using assms(1) by (simp add: onLookupResponse_def)
  have f: "suspendedFrom ?s' = Some now" "sbCache ?s' = sbCache s"
    "requestsCache ?s' = requestsCache s" by (simp_all add: suspendSafebrowsing_def)
  have m: "map_of (entries (sbCache ?s')) = map_of (entries (sbCache s))" using f(2) by simp
  have "now \<le> now" by simp
  from suspended_events [OF f(1) assms(2) this assms(3) m, of env]
  have "length (outcomes env ?s' later) = length later \<and>
         (\<forall>i < length later. \<not> is_BackendRequest (outcomes env ?s' later ! i) \<and>
            (\<forall>t url. later ! i = Lookup t url \<and>
               cacheMiss env (map_of (entries (sbCache s))) url \<longrightarrow>
               outcomes env ?s' later ! i = Silent))" .
  with r f show ?thesis by simp
qed

text \<open>
  Claim C5. A lookup that finds none of its hosts in the long-term cache, is not suspended, and
  finds every short hash in the cache of requests: it stores the host as \<open>whitelist\<close> in the
  long-term cache (of a capacity that is not zero) and calls back with \<open>null\<close>; it does not
  call the backend.
\<close>

theorem all_prefixes_asked_caches_clean:
  assumes "getHost env url = Some host" "host \<noteq> []"
    "\<forall>h \<in> set (extractHosts env host).
        \<not> truthy (map_of (entries (sbCache s)) (Some (createHash env h)))"
    "\<not> suspended s now"
    "\<forall>h \<in> set (extractHosts env host).
        map_of (entries (requestsCache s)) (take DOMAIN_HASH_LENGTH (createHash env h)) = Some True"
    "0 < capacity (sbCache s)"
  shows "\<exists>s'. lookupUrlWithCallback env s now url = (s', Callback None) \<and>
           map_of (entries (sbCache s')) (Some (createHash env host)) = Some SB_WHITE_LIST \<and>
           suspendedFrom s' = suspendedFrom s \<and>
           map_of (entries (requestsCache s')) = map_of (entries (requestsCache s))"
proof -
  let ?hosts = "extractHosts env host"
  let ?chk = "checkHostsInSbCache env (sbCache s) ?hosts"
  let ?short = "map (take DOMAIN_HASH_LENGTH) (map fst (createHashesMap env ?hosts))"
  let ?flt = "filterChecked (requestsCache s) ?short"
  have miss: "\<not> truthy (fst ?chk)" using assms(3) by (rule checkHostsInSbCache_miss)
  have "\<forall>x \<in> set ?short. map_of (entries (requestsCache s)) x = Some True"
  proof
    fix x assume "x \<in> set ?short"
    then obtain k where k: "k \<in> set (map fst (createHashesMap env ?hosts))"
      "x = take DOMAIN_HASH_LENGTH k" by auto
    from k(1) obtain h where "h \<in> set ?hosts" "k = createHash env h"
      unfolding createHashesMap_keys by blast
    with assms(5) k(2) show "map_of (entries (requestsCache s)) x = Some True" by simp
  qed
  then have "filter (\<lambda>x. map_of (entries (requestsCache s)) x \<noteq> Some True) ?short = []"
    by (simp add: filter_empty_conv)
  then have empty: "fst ?flt = []" by (simp add: filterChecked_eq)
  have cap: "0 < capacity (snd ?chk)" using assms(6) by (simp add: checkHostsInSbCache_frame)
  have ns: "\<not> (case suspendedFrom s of None \<Rightarrow> False
               | Some t \<Rightarrow> t \<noteq> 0 \<and> now - t < SUSPEND_TTL)"
    using assms(4) by (simp add: suspended_def)
  have "lookupUrlWithCallback env s now url =
          (s\<lparr>requestsCache := snd ?flt,
             sbCache := lru_set (snd ?chk) (Some (createHash env host)) SB_WHITE_LIST\<rparr>,
           Callback (createResponse SB_WHITE_LIST))"
    using assms(1,2) miss empty ns extractHosts_nonempty [of env host]
    by (simp add: lookupUrlWithCallback_def Let_def split_beta)
  then show ?thesis using cap
    by (simp add: createResponse_def lru_set_get filterChecked_eq)
qed

text \<open>
  Claim C6. When the first extracted host with a list name in the long-term cache has the name
  \<open>v\<close> there, the lookup calls back with \<open>null\<close> if \<open>v\<close> is \<open>whitelist\<close> and with \<open>v\<close> otherwise;
  it does not call the backend, whatever the suspension and the cache of requests, which it
  leaves as they are. A list name is a string that is not empty.
\<close>

theorem cached_verdict_wins:
  assumes "getHost env url = Some host" "host \<noteq> []"
    "extractHosts env host = pre @ h # post"
    "\<forall>h' \<in> set pre. \<not> truthy (map_of (entries (sbCache s)) (Some (createHash env h')))"
    "map_of (entries (sbCache s)) (Some (createHash env h)) = Some v" "v \<noteq> []"
  shows "\<exists>s'. lookupUrlWithCallback env s now url =
                 (s', Callback (if v = ''whitelist'' then None else Some v)) \<and>
           map_of (entries (sbCache s')) = map_of (entries (sbCache s)) \<and>
           requestsCache s' = requestsCache s \<and> suspendedFrom s' = suspendedFrom s"
proof -
  have t: "truthy (map_of (entries (sbCache s)) (Some (createHash env h)))"
    using assms(5,6) by (simp add: truthy_def)
  from checkHostsInSbCache_hit [OF assms(4) t, of post] assms(3,5)
  have hit: "fst (checkHostsInSbCache env (sbCache s) (extractHosts env host)) = Some v"
    by simp
  then have "truthy (fst (checkHostsInSbCache env (sbCache s) (extractHosts env host)))"
    using assms(6) by (simp add: truthy_def)
  from lookup_cached [OF assms(1,2) this] hit show ?thesis
    by (simp add: createResponse_def SB_WHITE_LIST_def checkHostsInSbCache_frame)
qed

lemma split_on_nonempty: "split_on c s \<noteq> []"
  by (induction s) (auto split: list.splits)

lemma length_split_on: "length (split_on c s) = Suc (length (filter (\<lambda>x. x = c) s))"
  by (induction s) (auto split: list.splits simp add: split_on_nonempty)

lemma join_split_on: "join_with [c] (split_on c s) = s"
proof (induction s)
  case Nil
  then show ?case by simp
next
  case (Cons x s)
  obtain p ps where ps: "split_on c s = p # ps"
    using split_on_nonempty [of c s] by (cases "split_on c s") auto
  show ?case
  proof (cases "x = c")
    case True
    with Cons ps show ?thesis by simp
  next
    case False
    with Cons ps show ?thesis by (cases ps) simp_all
  qed
qed

lemma join_with_append:
  "xs \<noteq> [] \<Longrightarrow> ys \<noteq> [] \<Longrightarrow> join_with sep (xs @ ys) = join_with sep xs @ sep @ join_with sep ys"
proof (induction sep xs rule: join_with.induct)
  case (1 sep)
  then show ?case by simp
next
  case (2 sep p)
  then show ?case by (cases ys) simp_all
next
  case (3 sep p q ps)
  then show ?case by simp
qed

lemma dot_suffix_is_suffix:
  assumes "0 < i" "i < length (split_on CHR ''.'' host)"
  shows "host = join_with ''.'' (take i (split_on CHR ''.'' host)) @ ''.'' @
                join_with ''.'' (drop i (split_on CHR ''.'' host))"
proof -
  let ?p = "split_on CHR ''.'' host"
  have "take i ?p \<noteq> []" "drop i ?p \<noteq> []" using assms by auto
  from join_with_append [OF this, of "''.''"] join_split_on [of "CHR ''.''" host]
  show ?thesis by simp
qed

text \<open>
  Claim C7, as amended. For an address \<open>extractHosts\<close> returns the host alone. For any other
  host with a dot it returns the dot-suffixes down to the root of two labels, the host itself
  first. For any other host without a dot it returns the host alone.
\<close>

theorem extractHosts_dot_suffixes:
  "(isIpv4 env host \<or> isIpv6 env host \<longrightarrow> extractHosts env host = [host]) \<and>
   (\<not> isIpv4 env host \<and> \<not> isIpv6 env host \<and> CHR ''.'' \<in> set host \<longrightarrow>
      extractHosts env host = dot_suffixes host \<and> hd (dot_suffixes host) = host) \<and>
   (\<not> isIpv4 env host \<and> \<not> isIpv6 env host \<and> CHR ''.'' \<notin> set host \<longrightarrow>
      extractHosts env host = [host])"
proof -
  let ?p = "split_on CHR ''.'' host"
  have ip: "extractHosts env host = [host]" if "isIpv4 env host \<or> isIpv6 env host"
    using that by (auto simp add: extractHosts_def)
  have one: "extractHosts env host = [host]"
    if a: "\<not> isIpv4 env host \<and> \<not> isIpv6 env host \<and> CHR ''.'' \<notin> set host"
  proof -
    from a have "filter (\<lambda>x. x = CHR ''.'') host = []" by (auto simp add: filter_empty_conv)
    then have "length ?p = 1" by (simp add: length_split_on)
    with a show ?thesis by (simp add: extractHosts_def Let_def)
  qed
  have more: "extractHosts env host = dot_suffixes host \<and> hd (dot_suffixes host) = host"
    if a: "\<not> isIpv4 env host \<and> \<not> isIpv6 env host \<and> CHR ''.'' \<in> set host"
  proof -
    from a have "filter (\<lambda>x. x = CHR ''.'') host \<noteq> []" by (auto simp add: filter_empty_conv)
    then have len: "2 \<le> length ?p" by (cases "filter (\<lambda>x. x = CHR ''.'') host")
        (simp_all add: length_split_on)
    have hd: "dot_suffixes host =
        host # map (\<lambda>i. join_with ''.'' (drop i ?p)) [1 ..< length ?p - 1]"
      using len join_split_on [of "CHR ''.''" host]
      by (simp add: dot_suffixes_def Let_def upt_conv_Cons)
    show ?thesis
    proof (cases "length ?p = 2")
      case True
      with a hd show ?thesis by (simp add: extractHosts_def Let_def)
    next
      case False
      with len have l3: "\<not> length ?p \<le> 2" by simp
      then have "length ?p - 2 + 1 = length ?p - 1" by simp
      with a l3 hd show ?thesis
        by (simp add: extractHosts_def dot_suffixes_def Let_def strings_join_def)
    qed
  qed
  from ip one more show ?thesis by blast
qed

text \<open>The two examples of the specification, and a host of one label.\<close>

theorem extractHosts_dot_suffixes_witness:
  "extractHosts example_collaborators ''1.2.3.4'' = [''1.2.3.4''] \<and>
   extractHosts example_collaborators ''a.b.example.com'' =
     [''a.b.example.com'', ''b.example.com'', ''example.com''] \<and>
   extractHosts example_collaborators ''localhost'' = [''localhost'']"
proof -
  have d: "dot_suffixes ''a.b.example.com'' =
     [''a.b.example.com'', ''b.example.com'', ''example.com'']"
    by (simp add: dot_suffixes_def upt_conv_Cons)
  from extractHosts_dot_suffixes [of example_collaborators "''1.2.3.4''"]
    extractHosts_dot_suffixes [of example_collaborators "''a.b.example.com''"]
    extractHosts_dot_suffixes [of example_collaborators "''localhost''"] d
  show ?thesis by (simp add: example_collaborators_def)
qed

text \<open>
  Claim C7 as stated fails for a host of one label: it has no suffix of two labels, and
  \<open>extractHosts\<close> returns the host.
\<close>

theorem single_label_host_has_no_two_label_suffix:
  "\<not> isIpv4 example_collaborators ''localhost'' \<and> \<not> isIpv6 example_collaborators ''localhost'' \<and>
   dot_suffixes ''localhost'' = [] \<and>
   extractHosts example_collaborators ''localhost'' = [''localhost'']"
  by (simp add: example_collaborators_def dot_suffixes_def extractHosts_def)

lemma example_hosts:
  "getHost example_collaborators ''http://evil.com/x'' = Some ''evil.com''"
  "getHost example_collaborators ''http://good.org/'' = Some ''good.org''"
  "extractHosts example_collaborators ''evil.com'' = [''evil.com'']"
  "extractHosts example_collaborators ''good.org'' = [''good.org'']"
  "createHash example_collaborators ''evil.com'' = ''EVIL.COM/''"
  "createHash example_collaborators ''good.org'' = ''GOOD.ORG/''"
  "getHost example_collaborators ''http://new.net/'' = Some ''new.net''"
  "extractHosts example_collaborators ''new.net'' = [''new.net'']"
  "createHash example_collaborators ''new.net'' = ''NEW.NET/''"
  by (simp_all add: example_collaborators_def extractHosts_def createHash_def toUpperCase_def
      upper_char_def char_of_def bit_numeral_simps bit_0 bit_Suc)

text \<open>The example of the specification: \<open>evil.com\<close> is cached as \<open>malware\<close>.\<close>

theorem cached_verdict_wins_witness:
  "getHost example_collaborators ''http://evil.com/x'' = Some ''evil.com'' \<and>
   extractHosts example_collaborators ''evil.com'' = [] @ ''evil.com'' # [] \<and>
   map_of (entries (sbCache example_safebrowsing))
     (Some (createHash example_collaborators ''evil.com'')) = Some ''malware'' \<and>
   snd (lookupUrlWithCallback example_collaborators example_safebrowsing 5000
          ''http://evil.com/x'') = Callback (Some ''malware'')"
proof -
  have h1: "getHost example_collaborators ''http://evil.com/x'' = Some ''evil.com''"
    and h3: "extractHosts example_collaborators ''evil.com'' = [] @ ''evil.com'' # []"
    and h5: "map_of (entries (sbCache example_safebrowsing))
       (Some (createHash example_collaborators ''evil.com'')) = Some ''malware''"
    by (simp_all add: example_hosts example_safebrowsing_def)
  from cached_verdict_wins [OF h1 _ h3 _ h5, of 5000] h1 h3 h5
  show ?thesis by auto
qed

text \<open>The short hash of \<open>good.org\<close> has been asked before.\<close>

theorem all_prefixes_asked_caches_clean_witness:
  "getHost example_collaborators ''http://good.org/'' = Some ''good.org'' \<and>
   \<not> suspended example_safebrowsing 5000 \<and>
   map_of (entries (requestsCache example_safebrowsing))
     (take DOMAIN_HASH_LENGTH (createHash example_collaborators ''good.org'')) = Some True \<and>
   snd (lookupUrlWithCallback example_collaborators example_safebrowsing 5000
          ''http://good.org/'') = Callback None \<and>
   map_of (entries (sbCache (fst (lookupUrlWithCallback example_collaborators
       example_safebrowsing 5000 ''http://good.org/''))))
     (Some ''GOOD.ORG/'') = Some ''whitelist''"
proof -
  have h1: "getHost example_collaborators ''http://good.org/'' = Some ''good.org''"
    by (simp add: example_hosts)
  have h3: "\<forall>h \<in> set (extractHosts example_collaborators ''good.org'').
      \<not> truthy (map_of (entries (sbCache example_safebrowsing))
           (Some (createHash example_collaborators h)))"
    by (simp add: example_hosts example_safebrowsing_def truthy_def)
  have h4: "\<not> suspended example_safebrowsing 5000"
    by (simp add: suspended_def example_safebrowsing_def)
  have h5: "\<forall>h \<in> set (extractHosts example_collaborators ''good.org'').
      map_of (entries (requestsCache example_safebrowsing))
        (take DOMAIN_HASH_LENGTH (createHash example_collaborators h)) = Some True"
    by (simp add: example_hosts example_safebrowsing_def DOMAIN_HASH_LENGTH_def)
  have h6: "0 < capacity (sbCache example_safebrowsing)"
    by (simp add: example_safebrowsing_def)
  from all_prefixes_asked_caches_clean [OF h1 _ h3 h4 h5 h6] h1 h4 h5
  show ?thesis by (auto simp add: example_hosts SB_WHITE_LIST_def)
qed

text \<open>
  The lookup of \<open>new.net\<close> calls the backend from the sample state. After a status of 503
  at time 1000 it is silent, also after a failure of the backend in between; a lookup that
  hits the cache still calls back.
\<close>

theorem server_error_suspends_lookups_witness:
  "(500::int) \<le> status \<lparr>status = 503, responseText = []\<rparr> \<and> (0::int) < 1000 \<and>
   (1000::int) \<le> 2000 \<and> (2000::int) - 1000 < SUSPEND_TTL \<and>
   (1000::int) \<le> 2500 \<and> (2500::int) - 1000 < SUSPEND_TTL \<and>
   (1000::int) \<le> 3000 \<and> (3000::int) - 1000 < SUSPEND_TTL \<and>
   cacheMiss example_collaborators (map_of (entries (sbCache example_safebrowsing)))
     ''http://new.net/'' \<and>
   snd (lookupUrlWithCallback example_collaborators example_safebrowsing 3000 ''http://new.net/'')
     = BackendRequest [''NEW.''] [(''NEW.NET/'', ''new.net'')] ''new.net'' \<and>
   outcomes example_collaborators
     (fst (onLookupResponse example_collaborators example_safebrowsing 1000 [''FIRS'']
             [(''FIRST.ORG/'', ''first.org'')] ''first.org'' \<lparr>status = 503, responseText = []\<rparr>))
     [Lookup 2000 ''http://evil.com/x'', Failure 2500, Lookup 3000 ''http://new.net/''] ! 2
     = Silent"
proof -
  let ?later = "[Lookup 2000 ''http://evil.com/x'', Failure 2500, Lookup 3000 ''http://new.net/'']"
  have h1: "(500::int) \<le> status \<lparr>status = 503, responseText = []\<rparr>" by simp
  have h2: "(0::int) < 1000" by simp
  have h3: "\<forall>e \<in> set ?later.
      1000 \<le> time_of e \<and> time_of e - 1000 < SUSPEND_TTL \<and> \<not> resumes e"
    by (simp add: SUSPEND_TTL_def)
  have m: "cacheMiss example_collaborators (map_of (entries (sbCache example_safebrowsing)))
     ''http://new.net/''"
    by (simp add: cacheMiss_def example_hosts example_safebrowsing_def truthy_def)
  have c: "snd (lookupUrlWithCallback example_collaborators example_safebrowsing 3000
      ''http://new.net/'') = BackendRequest [''NEW.''] [(''NEW.NET/'', ''new.net'')] ''new.net''"
    by code_simp
  from server_error_suspends_lookups [OF h1 h2 h3, of example_collaborators example_safebrowsing
      "[''FIRS'']" "[(''FIRST.ORG/'', ''first.org'')]" "''first.org''"]
  obtain s' where
    s': "onLookupResponse example_collaborators example_safebrowsing 1000 [''FIRS'']
           [(''FIRST.ORG/'', ''first.org'')] ''first.org'' \<lparr>status = 503, responseText = []\<rparr>
         = (s', Silent)"
    and a: "\<forall>i < length ?later.
        (\<forall>t url. ?later ! i = Lookup t url \<and>
           cacheMiss example_collaborators (map_of (entries (sbCache example_safebrowsing))) url \<longrightarrow>
           outcomes example_collaborators s' ?later ! i = Silent)"
    by blast
  have "outcomes example_collaborators s' ?later ! 2 = Silent"
    using a [rule_format, of 2 3000 "''http://new.net/''"] m by simp
  with s' c m show ?thesis by (simp add: SUSPEND_TTL_def)
qed

text \<open>
  Claim C4 as stated fails. A status of 503 at time 1000 suspends; the answer to another
  request, with status 200, comes at time 1500 and ends the suspension; the lookup of
  \<open>new.net\<close> at time 2000, well within the 40 minutes, calls the backend.
\<close>

theorem answer_in_flight_ends_suspension:
  "(2000::int) - 1000 < SUSPEND_TTL \<and>
   outcomes example_collaborators
     (fst (onLookupResponse example_collaborators example_safebrowsing 1000 [''FIRS'']
             [(''FIRST.ORG/'', ''first.org'')] ''first.org'' \<lparr>status = 503, responseText = []\<rparr>))
     [Answer 1500 [''OTHE''] [(''OTHER.ORG/'', ''other.org'')] ''other.org''
        \<lparr>status = 200, responseText = []\<rparr>,
      Lookup 2000 ''http://new.net/'']
   = [Callback None, BackendRequest [''NEW.''] [(''NEW.NET/'', ''new.net'')] ''new.net'']"
  by code_simp

section \<open>Properties of the stealth service\<close>

lemma canonicalize_fixed:
  assumes "(of_char d :: nat) < 65"
  shows "(canonicalize x = canonicalize d \<longleftrightarrow> x = d) \<and>
         (canonicalize d = canonicalize x \<longleftrightarrow> x = d)"
proof -
  have d: "canonicalize d = d" using assms by (simp add: canonicalize_def Let_def)
  show ?thesis
  proof (cases "(97 \<le> (of_char x :: nat) \<and> (of_char x :: nat) \<le> 122) \<or>
                (224 \<le> (of_char x :: nat) \<and> (of_char x :: nat) \<le> 254 \<and>
                 (of_char x :: nat) \<noteq> 247)")
    case True
    then have u: "canonicalize x = char_of ((of_char x :: nat) - 32)"
      by (simp add: canonicalize_def Let_def)
    have "(of_char (char_of ((of_char x :: nat) - 32)) :: nat) = ((of_char x :: nat) - 32) mod 256"
      by (rule of_char_of)
    also have "\<dots> = (of_char x :: nat) - 32"
    proof (rule mod_less)
      show "(of_char x :: nat) - 32 < 256" using True by arith
    qed
    finally have "(of_char (canonicalize x) :: nat) = (of_char x :: nat) - 32" using u by simp
    with True assms have "canonicalize x \<noteq> d" by auto
    moreover from True assms have "x \<noteq> d" by auto
    ultimately show ?thesis using d by auto
  next
    case False
    then have "canonicalize x = x" by (auto simp add: canonicalize_def Let_def)
    with d show ?thesis by auto
  qed
qed

lemma canonicalize_eq:
  "canonicalize x = canonicalize CHR ''='' \<longleftrightarrow> x = CHR ''=''"
  "canonicalize x = canonicalize CHR ''&'' \<longleftrightarrow> x = CHR ''&''"
  "canonicalize x = canonicalize CHR ''#'' \<longleftrightarrow> x = CHR ''#''"
  "canonicalize CHR ''&'' = canonicalize x \<longleftrightarrow> x = CHR ''&''"
  "canonicalize CHR ''#'' = canonicalize x \<longleftrightarrow> x = CHR ''#''"
  using canonicalize_fixed [of "CHR ''=''" x] canonicalize_fixed [of "CHR ''&''" x]
    canonicalize_fixed [of "CHR ''#''" x]
  by simp_all

lemma seg_after_seg: "seg s @ after_seg s = s"
  by (simp add: seg_def after_seg_def)

lemma boundary_after_seg: "boundary (after_seg s)"
  by (induction s) (simp_all add: boundary_def after_seg_def)

lemma seg_free: "x \<in> set (seg s) \<Longrightarrow> x \<noteq> CHR ''&'' \<and> x \<noteq> CHR ''#''"
  unfolding seg_def by (auto dest: set_takeWhileD)

lemma takeWhile_append_boundary:
  assumes "boundary rest" "CHR ''&'' \<in> set cs" "CHR ''#'' \<in> set cs"
  shows "takeWhile (\<lambda>x. x \<notin> set cs) (t @ rest) = takeWhile (\<lambda>x. x \<notin> set cs) t"
proof (cases "\<forall>x \<in> set t. x \<notin> set cs")
  case True
  have "takeWhile (\<lambda>x. x \<notin> set cs) rest = []"
    using assms by (cases rest) (auto simp add: boundary_def)
  with True show ?thesis by (simp add: takeWhile_append2 takeWhile_eq_all_conv [THEN iffD2])
next
  case False
  then show ?thesis by (auto simp add: takeWhile_append1)
qed

lemma match_piece_append:
  assumes "piece_ok p" "boundary rest"
  shows "match_piece p (t @ rest) = map (\<lambda>r. r @ rest) (match_piece p t)"
proof (cases p)
  case (Chr c)
  show ?thesis
  proof (cases t)
    case Nil
    with Chr assms show ?thesis
      by (cases rest) (auto simp add: boundary_def canonicalize_eq)
  next
    case (Cons x xs)
    with Chr show ?thesis by simp
  qed
next
  case (StarNot cs)
  with assms have cs: "CHR ''&'' \<in> set cs" "CHR ''#'' \<in> set cs" by simp_all
  let ?n = "length (takeWhile (\<lambda>x. x \<notin> set cs) t)"
  have n: "?n \<le> length t" by (rule length_takeWhile_le)
  have "map (\<lambda>k. drop k (t @ rest)) (rev [0 ..< ?n + 1]) =
        map (\<lambda>k. drop k t @ rest) (rev [0 ..< ?n + 1])"
    using n by (intro map_cong) auto
  with StarNot show ?thesis
    by (simp add: takeWhile_append_boundary [OF assms(2) cs] comp_def del: upt_Suc)
qed

lemma match_seq_append:
  assumes "\<forall>p \<in> set ps. piece_ok p" "boundary rest"
  shows "match_seq ps (t @ rest) = map (\<lambda>r. r @ rest) (match_seq ps t)"
  using assms(1)
proof (induction ps arbitrary: t)
  case Nil
  then show ?case by simp
next
  case (Cons p ps)
  then have p: "piece_ok p" and ih: "\<And>t. match_seq ps (t @ rest) = map (\<lambda>r. r @ rest) (match_seq ps t)"
    by simp_all
  show ?case
    by (simp add: match_piece_append [OF p assms(2)] comp_def ih map_concat)
qed

lemma match_alt_append:
  assumes "alts_ok alts" "boundary rest"
  shows "match_alt alts (t @ rest) = map (\<lambda>r. r @ rest) (match_alt alts t)"
proof -
  have "map (\<lambda>a. match_seq a (t @ rest)) alts = map (\<lambda>a. map (\<lambda>r. r @ rest) (match_seq a t)) alts"
    using assms by (intro map_cong) (auto simp add: alts_ok_def match_seq_append)
  then have "concat (map (\<lambda>a. match_seq a (t @ rest)) alts) =
             concat (map (\<lambda>a. map (\<lambda>r. r @ rest) (match_seq a t)) alts)"
    by (rule arg_cong)
  also have "\<dots> = map (\<lambda>r. r @ rest) (concat (map (\<lambda>a. match_seq a t) alts))"
    by (simp only: map_concat map_map comp_def)
  finally show ?thesis by (simp only: match_alt_def)
qed

lemma match_piece_suffix: "r \<in> set (match_piece p t) \<Longrightarrow> set r \<subseteq> set t"
proof (cases p)
  case (Chr c)
  assume "r \<in> set (match_piece p t)"
  with Chr show ?thesis by (cases t) (auto split: if_splits)
next
  case (StarNot cs)
  assume "r \<in> set (match_piece p t)"
  with StarNot show ?thesis by (auto dest: in_set_dropD)
qed

lemma match_seq_suffix: "r \<in> set (match_seq ps t) \<Longrightarrow> set r \<subseteq> set t"
proof (induction ps arbitrary: t)
  case Nil
  then show ?case by simp
next
  case (Cons p ps)
  then obtain r1 where "r1 \<in> set (match_piece p t)" "r \<in> set (match_seq ps r1)" by auto
  with Cons.IH [of r1] match_piece_suffix [of r1 p t] show ?case by blast
qed

lemma match_alt_suffix: "r \<in> set (match_alt alts t) \<Longrightarrow> set r \<subseteq> set t"
  by (auto simp add: match_alt_def dest: match_seq_suffix)

lemma concat_match_seq_Nil: "concat (map (match_seq []) xs) = xs"
  by (induction xs) simp_all

lemma value_match_good:
  assumes "boundary rest" "\<forall>x \<in> set r'. x \<noteq> CHR ''&'' \<and> x \<noteq> CHR ''#''"
  shows "\<exists>l. match_seq [Chr CHR ''='', StarNot ''&#''] ((CHR ''='' # r') @ rest) = rest # l"
proof -
  have tw: "takeWhile (\<lambda>x. x \<notin> set ''&#'') (r' @ rest) = r'"
  proof -
    have "takeWhile (\<lambda>x. x \<notin> set ''&#'') rest = []"
      using assms(1) by (cases rest) (auto simp add: boundary_def)
    moreover have "\<forall>x \<in> set r'. x \<notin> set ''&#''" using assms(2) by simp
    ultimately show ?thesis by (simp add: takeWhile_append2 takeWhile_eq_all_conv [THEN iffD2])
  qed
  have "match_seq [Chr CHR ''='', StarNot ''&#''] ((CHR ''='' # r') @ rest) =
        match_piece (StarNot ''&#'') (r' @ rest)"
    by (simp add: canonicalize_eq concat_match_seq_Nil del: match_piece.simps(3))
  also have "\<dots> = map (\<lambda>k. drop k (r' @ rest)) (rev [0 ..< length r' + 1])"
    by (simp only: match_piece.simps tw)
  also have "\<dots> = rest # map (\<lambda>k. drop k (r' @ rest)) (rev [0 ..< length r'])"
    by simp
  finally show ?thesis by blast
qed

lemma value_match_bad:
  assumes "boundary rest" "r = [] \<or> hd r \<noteq> CHR ''=''"
  shows "match_seq [Chr CHR ''='', StarNot ''&#''] (r @ rest) = []"
proof (cases r)
  case Nil
  with assms(1) show ?thesis
    by (cases rest) (auto simp add: boundary_def canonicalize_eq)
next
  case (Cons x xs)
  with assms(2) show ?thesis by (simp add: canonicalize_eq)
qed

lemma concat_first:
  assumes "\<forall>r \<in> set rs. (good r \<longrightarrow> (\<exists>l. g r = rest # l)) \<and> (\<not> good r \<longrightarrow> g r = [])"
  shows "if \<exists>r \<in> set rs. good r then \<exists>l. concat (map g rs) = rest # l
         else concat (map g rs) = []"
  using assms
proof (induction rs)
  case Nil
  then show ?case by simp
next
  case (Cons r rs)
  then have ih: "if \<exists>r \<in> set rs. good r then \<exists>l. concat (map g rs) = rest # l
         else concat (map g rs) = []" by simp
  show ?case
  proof (cases "good r")
    case True
    with Cons.prems obtain l where "g r = rest # l" by auto
    with True show ?thesis by simp
  next
    case False
    with Cons.prems have "g r = []" by simp
    with False ih show ?thesis by simp
  qed
qed

lemma ends_of_start:
  assumes "alts_ok alts"
  shows "if tracked alts (seg s)
         then \<exists>l. concat (map (match_seq [Chr CHR ''='', StarNot ''&#'']) (match_alt alts s))
                = after_seg s # l
         else concat (map (match_seq [Chr CHR ''='', StarNot ''&#'']) (match_alt alts s)) = []"
proof -
  let ?v = "match_seq [Chr CHR ''='', StarNot ''&#'']"
  let ?rs = "match_alt alts (seg s)"
  let ?good = "\<lambda>r. r \<noteq> [] \<and> hd r = CHR ''=''"
  have b: "boundary (after_seg s)" by (rule boundary_after_seg)
  have "match_alt alts s = map (\<lambda>r. r @ after_seg s) ?rs"
    using match_alt_append [OF assms b, of "seg s"] by (simp add: seg_after_seg)
  then have eq: "concat (map ?v (match_alt alts s)) = concat (map (\<lambda>r. ?v (r @ after_seg s)) ?rs)"
    by (simp add: comp_def)
  have "\<forall>r \<in> set ?rs. (?good r \<longrightarrow> (\<exists>l. ?v (r @ after_seg s) = after_seg s # l)) \<and>
                        (\<not> ?good r \<longrightarrow> ?v (r @ after_seg s) = [])"
  proof (intro ballI conjI impI)
    fix r assume r: "r \<in> set ?rs" and g: "?good r"
    from g obtain r' where r': "r = CHR ''='' # r'" by (cases r) auto
    have "set r \<subseteq> set (seg s)" using r by (rule match_alt_suffix)
    then have "\<forall>x \<in> set r'. x \<noteq> CHR ''&'' \<and> x \<noteq> CHR ''#''"
      using r' seg_free [of _ s] by auto
    from value_match_good [OF b this] r'
    show "\<exists>l. ?v (r @ after_seg s) = after_seg s # l" by simp
  next
    fix r assume "r \<in> set ?rs" and "\<not> ?good r"
    then have "r = [] \<or> hd r \<noteq> CHR ''=''" by auto
    from value_match_bad [OF b this] show "?v (r @ after_seg s) = []" .
  qed
  from concat_first [of ?rs ?good "\<lambda>r. ?v (r @ after_seg s)" "after_seg s", OF this]
  show ?thesis unfolding eq tracked_def by simp
qed

lemma tracked_Nil_amp: "alts_ok alts \<Longrightarrow> s = CHR ''&'' # cs \<Longrightarrow> \<not> tracked alts (seg s)"
proof -
  assume a: "alts_ok alts" "s = CHR ''&'' # cs"
  then have "seg s = []" by (simp add: seg_def)
  moreover have "\<forall>r \<in> set (match_alt alts []). r = []"
    using match_alt_suffix [of _ alts "[]"] by auto
  ultimately show ?thesis by (auto simp add: tracked_def)
qed

lemma regexp_exec_eq:
  assumes "alts_ok alts"
  shows "regexp_exec alts b s =
           (if b \<and> tracked alts (seg s) then Some (after_seg s)
            else (case s of [] \<Rightarrow> None
                  | c # cs \<Rightarrow> if c = CHR ''&'' \<and> tracked alts (seg cs) then Some (after_seg cs)
                              else None))"
proof -
  define E where
    "E = (\<lambda>s. concat (map (match_seq [Chr CHR ''='', StarNot ''&#'']) (match_alt alts s)))"
  have e: "if tracked alts (seg s) then \<exists>l. E s = after_seg s # l else E s = []" for s
    unfolding E_def by (rule ends_of_start [OF assms])
  have r: "regexp_exec alts b s =
      (case (if b then E s else []) @
            (case s of [] \<Rightarrow> [] | c # cs \<Rightarrow> if c = CHR ''&'' then E cs else [])
       of [] \<Rightarrow> None | r # rs \<Rightarrow> Some r)"
    unfolding E_def regexp_exec_def Let_def by (cases s) (simp_all del: match_seq.simps)
  show ?thesis
  proof (cases "b \<and> tracked alts (seg s)")
    case True
    with e [of s] obtain l where "E s = after_seg s # l" by auto
    with True show ?thesis unfolding r by simp
  next
    case False
    have first: "(if b then E s else []) = []" using False e [of s] by auto
    show ?thesis
    proof (cases s)
      case Nil
      with first False show ?thesis unfolding r by simp
    next
      case (Cons c cs)
      show ?thesis
      proof (cases "c = CHR ''&'' \<and> tracked alts (seg cs)")
        case True
        with e [of cs] obtain l where "E cs = after_seg cs # l" by auto
        with True Cons first False show ?thesis unfolding r by auto
      next
        case f2: False
        have "c = CHR ''&'' \<Longrightarrow> E cs = []" using f2 e [of cs] by auto
        with Cons first False f2 show ?thesis unfolding r by auto
      qed
    qed
  qed
qed

lemma not_tracked_Nil: "\<not> tracked alts []"
  using match_alt_suffix [of _ alts "[]"] by (auto simp add: tracked_def)

lemma seg_boundary: "boundary r \<Longrightarrow> seg r = []"
  by (cases r) (auto simp add: boundary_def seg_def)

lemma length_after_seg: "length (after_seg s) \<le> length s"
  by (simp add: after_seg_def length_dropWhile_le)

lemma regexp_exec_Some:
  assumes "alts_ok alts" "regexp_exec alts b s = Some r"
  shows "length r < length s \<and> boundary r"
proof (cases "b \<and> tracked alts (seg s)")
  case True
  then have "seg s \<noteq> []" using not_tracked_Nil [of alts] by auto
  then have "length (after_seg s) < length s"
    using seg_after_seg [of s] by (metis append_self_conv2 length_append length_greater_0_conv
        less_add_same_cancel2)
  with True assms show ?thesis using boundary_after_seg [of s] by (auto simp add: regexp_exec_eq)
next
  case False
  with assms obtain c cs where "s = c # cs" "r = after_seg cs"
    by (cases s) (auto simp add: regexp_exec_eq split: if_splits)
  then show ?thesis using length_after_seg [of cs] boundary_after_seg [of cs] by auto
qed

lemma regexp_exec_False_of_True:
  "alts_ok alts \<Longrightarrow> regexp_exec alts True s = None \<Longrightarrow> regexp_exec alts False s = None"
  by (simp add: regexp_exec_eq split: if_splits)

lemma replace_all_Some:
  "alts_ok alts \<Longrightarrow> regexp_exec alts b s = Some r \<Longrightarrow>
   replace_all alts b s = replace_all alts False r"
  using regexp_exec_Some [of alts b s r] by (subst replace_all.simps) simp

lemma replace_all_None:
  "regexp_exec alts b s = None \<Longrightarrow>
   replace_all alts b s = (case s of [] \<Rightarrow> [] | c # cs \<Rightarrow> c # replace_all alts False cs)"
  by (subst replace_all.simps) simp

lemma length_replace_all:
  assumes "alts_ok alts"
  shows "length (replace_all alts b s) \<le> length s"
proof (induction s arbitrary: b rule: length_induct)
  case (1 s)
  show ?case
  proof (cases "regexp_exec alts b s")
    case None
    show ?thesis
    proof (cases s)
      case Nil
      with None show ?thesis by (simp add: replace_all_None)
    next
      case (Cons c cs)
      with 1 have "length (replace_all alts False cs) \<le> length cs" by simp
      with None Cons show ?thesis by (simp add: replace_all_None)
    qed
  next
    case (Some r)
    from regexp_exec_Some [OF assms Some] have l: "length r < length s" by simp
    with 1 have "length (replace_all alts False r) \<le> length r" by simp
    with l show ?thesis by (simp add: replace_all_Some [OF assms Some])
  qed
qed

lemma seg_replace_all:
  assumes "alts_ok alts"
  shows "seg (replace_all alts False s) = seg s"
proof (induction s rule: length_induct)
  case (1 s)
  show ?case
  proof (cases "regexp_exec alts False s")
    case None
    show ?thesis
    proof (cases s)
      case Nil
      with None show ?thesis by (simp add: replace_all_None)
    next
      case (Cons c cs)
      with 1 have "seg (replace_all alts False cs) = seg cs" by simp
      with None Cons show ?thesis by (simp add: replace_all_None seg_def)
    qed
  next
    case (Some r)
    from regexp_exec_Some [OF assms Some] have l: "length r < length s" and b: "boundary r"
      by simp_all
    with 1 have "seg (replace_all alts False r) = seg r" by simp
    moreover have "seg s = []" using Some assms
      by (cases s) (auto simp add: regexp_exec_eq seg_def split: if_splits)
    ultimately show ?thesis using b by (simp add: replace_all_Some [OF assms Some] seg_boundary)
  qed
qed

lemma replace_all_clean:
  assumes "alts_ok alts"
  shows "replace_all alts False (replace_all alts b s) = replace_all alts b s"
proof (induction s arbitrary: b rule: length_induct)
  case (1 s)
  show ?case
  proof (cases "regexp_exec alts b s")
    case (Some r)
    from regexp_exec_Some [OF assms Some] have "length r < length s" by simp
    with 1 have "replace_all alts False (replace_all alts False r) = replace_all alts False r"
      by simp
    then show ?thesis by (simp add: replace_all_Some [OF assms Some])
  next
    case None
    show ?thesis
    proof (cases s)
      case Nil
      with None have "replace_all alts b s = []" by (simp add: replace_all_None)
      moreover have "replace_all alts False [] = []"
        by (simp add: replace_all_None regexp_exec_eq [OF assms])
      ultimately show ?thesis by simp
    next
      case (Cons c cs)
      let ?R1 = "replace_all alts False cs"
      from 1 Cons have ih: "replace_all alts False ?R1 = ?R1" by simp
      have R: "replace_all alts b s = c # ?R1" using None Cons by (simp add: replace_all_None)
      have "c = CHR ''&'' \<Longrightarrow> \<not> tracked alts (seg cs)"
        using None Cons by (auto simp add: regexp_exec_eq [OF assms] split: if_splits)
      then have "regexp_exec alts False (c # ?R1) = None"
        by (simp add: regexp_exec_eq [OF assms] seg_replace_all [OF assms])
      then have "replace_all alts False (c # ?R1) = c # replace_all alts False ?R1"
        by (simp add: replace_all_None)
      with ih R show ?thesis by simp
    qed
  qed
qed

lemma clean_Cons:
  assumes "alts_ok alts" "replace_all alts False (c # cs) = c # cs"
  shows "regexp_exec alts False (c # cs) = None \<and> replace_all alts False cs = cs"
proof (cases "regexp_exec alts False (c # cs)")
  case None
  with assms(2) show ?thesis by (simp add: replace_all_None)
next
  case (Some r)
  from regexp_exec_Some [OF assms(1) Some] have "length r < length (c # cs)" by simp
  moreover have "length (replace_all alts False r) \<le> length r"
    by (rule length_replace_all [OF assms(1)])
  moreover have "replace_all alts False r = c # cs"
    using assms(2) by (simp add: replace_all_Some [OF assms(1) Some])
  ultimately show ?thesis by simp
qed

lemma clean_dropWhile:
  assumes "alts_ok alts" "replace_all alts False s = s"
  shows "replace_all alts False (dropWhile (\<lambda>c. c = CHR ''&'') s) = dropWhile (\<lambda>c. c = CHR ''&'') s
     \<and> (s \<noteq> [] \<and> hd s = CHR ''&'' \<longrightarrow> \<not> tracked alts (seg (dropWhile (\<lambda>c. c = CHR ''&'') s)))"
  using assms(2)
proof (induction s)
  case Nil
  then show ?case by simp
next
  case (Cons c cs)
  from clean_Cons [OF assms(1) Cons.prems] have n: "regexp_exec alts False (c # cs) = None"
    and cl: "replace_all alts False cs = cs" by simp_all
  note ih = Cons.IH [OF cl]
  show ?case
  proof (cases "c = CHR ''&''")
    case False
    with Cons.prems show ?thesis by simp
  next
    case True
    with n have nt: "\<not> tracked alts (seg cs)"
      by (auto simp add: regexp_exec_eq [OF assms(1)] split: if_splits)
    show ?thesis
    proof (cases "cs \<noteq> [] \<and> hd cs = CHR ''&''")
      case True
      with ih \<open>c = CHR ''&''\<close> show ?thesis by simp
    next
      case False
      then have "dropWhile (\<lambda>c. c = CHR ''&'') cs = cs" by (cases cs) auto
      with nt cl \<open>c = CHR ''&''\<close> show ?thesis by simp
    qed
  qed
qed

lemma seg_replace_all_True:
  assumes "alts_ok alts"
  shows "\<not> tracked alts (seg (replace_all alts True s))"
proof (cases "regexp_exec alts True s")
  case (Some r)
  from regexp_exec_Some [OF assms Some] have "boundary r" by simp
  then have "seg (replace_all alts False r) = []"
    by (simp add: seg_replace_all [OF assms] seg_boundary)
  then show ?thesis by (simp add: replace_all_Some [OF assms Some] not_tracked_Nil)
next
  case None
  then have nt: "\<not> tracked alts (seg s)"
    by (auto simp add: regexp_exec_eq [OF assms] split: if_splits)
  show ?thesis
  proof (cases s)
    case Nil
    with None show ?thesis by (simp add: replace_all_None seg_def not_tracked_Nil)
  next
    case (Cons c cs)
    have "seg (c # replace_all alts False cs) = seg (c # cs)"
      using seg_replace_all [OF assms, of cs] by (simp add: seg_def)
    with None Cons nt show ?thesis by (simp add: replace_all_None)
  qed
qed

lemma replace_all_idempotent:
  assumes "alts_ok alts"
  shows "replace_all alts True (dropWhile (\<lambda>c. c = CHR ''&'') (replace_all alts True q)) =
         dropWhile (\<lambda>c. c = CHR ''&'') (replace_all alts True q)"
proof -
  define q' where "q' = dropWhile (\<lambda>c. c = CHR ''&'') (replace_all alts True q)"
  let ?R = "replace_all alts True q"
  have clR: "replace_all alts False ?R = ?R" by (rule replace_all_clean [OF assms(1)])
  from clean_dropWhile [OF assms(1) clR] have cl: "replace_all alts False q' = q'"
    and amp: "?R \<noteq> [] \<and> hd ?R = CHR ''&'' \<longrightarrow> \<not> tracked alts (seg q')"
    by (simp_all add: q'_def)
  have nt: "\<not> tracked alts (seg q')"
  proof (cases "?R \<noteq> [] \<and> hd ?R = CHR ''&''")
    case True
    with amp show ?thesis by simp
  next
    case False
    then have "q' = ?R" unfolding q'_def by (cases ?R) auto
    then show ?thesis using seg_replace_all_True [OF assms(1), of q] by simp
  qed
  have noamp: "q' = [] \<or> hd q' \<noteq> CHR ''&''"
    unfolding q'_def using hd_dropWhile [of "\<lambda>c. c = CHR ''&''" ?R] by auto
  have n: "regexp_exec alts True q' = None"
    using nt noamp by (cases q') (auto simp add: regexp_exec_eq [OF assms(1)])
  then have nF: "regexp_exec alts False q' = None"
    by (rule regexp_exec_False_of_True [OF assms(1)])
  have "replace_all alts True q' = replace_all alts False q'"
    using n nF by (simp add: replace_all_None)
  with cl show ?thesis by (simp add: q'_def)
qed

lemma split_on_pieces: "p \<in> set (split_on c s) \<Longrightarrow> c \<notin> set p \<and> set p \<subseteq> set s"
proof (induction s arbitrary: p)
  case Nil
  then show ?case by simp
next
  case (Cons x s)
  obtain q qs where q: "split_on c s = q # qs"
    using split_on_nonempty [of c s] by (cases "split_on c s") auto
  show ?case
  proof (cases "x = c")
    case True
    with Cons show ?thesis by auto
  next
    case False
    with Cons.prems q have "p = x # q \<or> p \<in> set qs" by auto
    with Cons.IH [of q] Cons.IH [of p] q False show ?thesis by auto
  qed
qed

lemma split_on_none: "c \<notin> set s \<Longrightarrow> split_on c s = [s]"
  by (induction s) auto

lemma split_on_join:
  "ps \<noteq> [] \<Longrightarrow> \<forall>p \<in> set ps. c \<notin> set p \<Longrightarrow> split_on c (join_with [c] ps) = ps"
proof (induction "[c]" ps rule: join_with.induct)
  case 1
  then show ?case by simp
next
  case (2 p)
  then show ?case by (simp add: split_on_none)
next
  case (3 p q ps)
  then have ih: "split_on c (join_with [c] (q # ps)) = q # ps" by simp
  have "c \<notin> set p" using 3 by simp
  then have "split_on c (p @ c # t) = p # split_on c t" for t
  proof (induction p)
    case Nil
    then show ?case by simp
  next
    case (Cons x p)
    then show ?case by (cases "split_on c t") auto
  qed
  with ih show ?case by simp
qed

lemma set_replace_all:
  assumes "alts_ok alts"
  shows "set (replace_all alts b s) \<subseteq> set s"
proof (induction s arbitrary: b rule: length_induct)
  case (1 s)
  show ?case
  proof (cases "regexp_exec alts b s")
    case None
    show ?thesis
    proof (cases s)
      case Nil
      with None show ?thesis by (simp add: replace_all_None)
    next
      case (Cons c cs)
      with 1 have "set (replace_all alts False cs) \<subseteq> set cs" by simp
      with None Cons show ?thesis by (auto simp add: replace_all_None)
    qed
  next
    case (Some r)
    from regexp_exec_Some [OF assms Some] have l: "length r < length s" by simp
    with 1 have "set (replace_all alts False r) \<subseteq> set r" by simp
    moreover have "set r \<subseteq> set s"
    proof -
      have "r = after_seg s \<or> (\<exists>c cs. s = c # cs \<and> r = after_seg cs)"
        using Some by (cases s) (auto simp add: regexp_exec_eq [OF assms] split: if_splits)
      then show ?thesis by (auto simp add: after_seg_def dest: set_dropWhileD)
    qed
    ultimately show ?thesis by (auto simp add: replace_all_Some [OF assms Some])
  qed
qed

lemma no_match_replace_all: "no_match alts b s \<Longrightarrow> replace_all alts b s = s"
  by (induction s arbitrary: b) (simp_all add: replace_all_None)

lemma set_trim: "set (trim s) \<subseteq> set s"
  unfolding trim_def by (auto dest!: set_dropWhileD)

lemma plain_alts:
  assumes "plain_setting setting"
  shows "\<exists>alts. trackingParametersRegExp setting = Inr alts \<and> alts_ok alts"
proof -
  let ?names = "trackingParameterNames setting"
  have sub: "set name \<subseteq> set setting" if "name \<in> set ?names" for name
  proof -
    from that obtain x where x: "x \<in> set (split_on CHR '','' (trim setting))"
      "name = trim (remove1 CHR ''='' x)" by (auto simp add: trackingParameterNames_def)
    have "set name \<subseteq> set x" using x(2) set_trim [of "remove1 CHR ''='' x"]
      set_remove1_subset [of "CHR ''=''" x] by auto
    moreover have "set x \<subseteq> set (trim setting)" using split_on_pieces [OF x(1)] by simp
    ultimately show ?thesis using set_trim [of setting] by auto
  qed
  have nospecial: "\<not> (\<exists>name \<in> set ?names. \<exists>c \<in> set name. c \<in> set special_characters)"
  proof
    assume "\<exists>name \<in> set ?names. \<exists>c \<in> set name. c \<in> set special_characters"
    then obtain name c where "name \<in> set ?names" "c \<in> set name" "c \<in> set special_characters"
      by blast
    with sub [of name] have "c \<in> set setting" "c \<in> set special_characters" by auto
    with assms show False unfolding plain_setting_def by blast
  qed
  let ?conv = "\<lambda>c. if c = CHR ''*'' then StarNot ''&#='' else Chr c"
  let ?alts = "if ?names = [] then [[]] else map (map ?conv) ?names"
  have pc: "piece_ok (?conv c)" if "c \<in> set setting" for c
    using that assms unfolding plain_setting_def by auto
  have "alts_ok ?alts"
    unfolding alts_ok_def
  proof (intro ballI)
    fix a p assume a: "a \<in> set ?alts" and p: "p \<in> set a"
    show "piece_ok p"
    proof (cases "?names = []")
      case True
      with a p show ?thesis by simp
    next
      case False
      with a obtain name where n: "name \<in> set ?names" "a = map ?conv name" by auto
      with p obtain c where "c \<in> set name" "p = ?conv c" by auto
      with sub [OF n(1)] pc [of c] show ?thesis by auto
    qed
  qed
  moreover have "trackingParametersRegExp setting = Inr ?alts"
    using nospecial by (simp add: trackingParametersRegExp_def Let_def)
  ultimately show ?thesis by blast
qed

lemma dropWhile_amp_idem:
  "dropWhile (\<lambda>c. c = CHR ''&'') (dropWhile (\<lambda>c. c = CHR ''&'') s) = dropWhile (\<lambda>c. c = CHR ''&'') s"
  by (rule dropWhile_idem)

lemma strip_result:
  assumes "trackingParametersRegExp setting = Inr alts" "length (split_on CHR ''?'' url) \<noteq> 1"
  shows "stripTrackingParameters setting url =
     (let urlPieces = split_on CHR ''?'' url;
          query = dropWhile (\<lambda>c. c = CHR ''&'') (replace_all alts True (urlPieces ! 1));
          result = (if query \<noteq> [] then join_with ''?'' (urlPieces[1 := query]) else urlPieces ! 0)
      in if result \<noteq> url then Inr (Some result) else Inr None)"
proof -
  have "1 < length (split_on CHR ''?'' url)"
    using assms(2) split_on_nonempty [of "CHR ''?''" url]
    by (cases "split_on CHR ''?'' url") auto
  then have "(split_on CHR ''?'' url)[1 := q] ! 0 = split_on CHR ''?'' url ! 0" for q by simp
  then show ?thesis using assms by (simp add: stripTrackingParameters_def Let_def)
qed

lemma strip_idempotent_core:
  assumes "trackingParametersRegExp setting = Inr alts" "alts_ok alts"
    "stripTrackingParameters setting url = Inr (Some u)"
  shows "stripTrackingParameters setting u = Inr None"
proof -
  let ?ps = "split_on CHR ''?'' url"
  let ?q = "dropWhile (\<lambda>c. c = CHR ''&'') (replace_all alts True (?ps ! 1))"
  have len: "length ?ps \<noteq> 1" using assms(3) by (auto simp add: stripTrackingParameters_def Let_def)
  then have l2: "1 < length ?ps"
    using split_on_nonempty [of "CHR ''?''" url] by (cases ?ps) auto
  from strip_result [OF assms(1) len] assms(3)
  have u: "u = (if ?q \<noteq> [] then join_with ''?'' (?ps[1 := ?q]) else ?ps ! 0)"
    by (simp add: Let_def split: if_splits)
  have free: "CHR ''?'' \<notin> set p" if "p \<in> set ?ps" for p using split_on_pieces [OF that] by simp
  show ?thesis
  proof (cases "?q = []")
    case True
    with u have "u = ?ps ! 0" by simp
    moreover have "?ps ! 0 \<in> set ?ps" using l2 by (intro nth_mem) linarith
    ultimately have "CHR ''?'' \<notin> set u" using free [of "?ps ! 0"] by simp
    then have "split_on CHR ''?'' u = [u]" by (rule split_on_none)
    then show ?thesis by (simp add: stripTrackingParameters_def)
  next
    case False
    let ?ps' = "?ps[1 := ?q]"
    from False u have uj: "join_with ''?'' ?ps' = u" by simp
    have "set ?q \<subseteq> set (?ps ! 1)"
      using set_replace_all [OF assms(2), of True "?ps ! 1"]
        set_dropWhileD [of _ "\<lambda>c. c = CHR ''&''" "replace_all alts True (?ps ! 1)"] by blast
    moreover have "?ps ! 1 \<in> set ?ps" using l2 by (intro nth_mem)
    ultimately have qfree: "CHR ''?'' \<notin> set ?q" using free [of "?ps ! 1"] by auto
    have "set ?ps' \<subseteq> insert ?q (set ?ps)" by (rule set_update_subset_insert)
    then have allfree: "\<forall>p \<in> set ?ps'. CHR ''?'' \<notin> set p"
      using free qfree by blast
    have ne: "?ps' \<noteq> []" using l2 by auto
    have "split_on CHR ''?'' (join_with [CHR ''?''] ?ps') = ?ps'"
      using ne allfree by (rule split_on_join)
    then have sp: "split_on CHR ''?'' u = ?ps'" using uj by simp
    have len': "length (split_on CHR ''?'' u) \<noteq> 1" unfolding sp using len by simp
    have q1: "?ps' ! 1 = ?q" using l2 by simp
    have id: "dropWhile (\<lambda>c. c = CHR ''&'') (replace_all alts True ?q) = ?q"
      by (simp only: replace_all_idempotent [OF assms(2)] dropWhile_amp_idem)
    have ov: "?ps'[1 := ?q] = ?ps'" by simp
    have "stripTrackingParameters setting u =
        (if (if ?q \<noteq> [] then join_with ''?'' ?ps' else ?ps' ! 0) \<noteq> u
         then Inr (Some (if ?q \<noteq> [] then join_with ''?'' ?ps' else ?ps' ! 0))
         else Inr None)"
      unfolding strip_result [OF assms(1) len'] Let_def sp q1 id ov ..
    also have "\<dots> = Inr None" using False uj by simp
    finally show ?thesis .
  qed
qed

lemma strip_no_match:
  assumes "trackingParametersRegExp setting = Inr alts" "length (split_on CHR ''?'' url) \<noteq> 1"
    "split_on CHR ''?'' url ! 1 \<noteq> []" "hd (split_on CHR ''?'' url ! 1) \<noteq> CHR ''&''"
    "no_match alts True (split_on CHR ''?'' url ! 1)"
  shows "stripTrackingParameters setting url = Inr None"
proof -
  let ?ps = "split_on CHR ''?'' url"
  have r: "replace_all alts True (?ps ! 1) = ?ps ! 1" using assms(5) by (rule no_match_replace_all)
  have d: "dropWhile (\<lambda>c. c = CHR ''&'') (?ps ! 1) = ?ps ! 1"
    using assms(3,4) by (cases "?ps ! 1") auto
  have j: "join_with ''?'' ?ps = url" using join_split_on [of "CHR ''?''" url] by simp
  have "stripTrackingParameters setting url =
      (if (if ?ps ! 1 \<noteq> [] then join_with ''?'' (?ps[1 := ?ps ! 1]) else ?ps ! 0) \<noteq> url
       then Inr (Some (if ?ps ! 1 \<noteq> [] then join_with ''?'' (?ps[1 := ?ps ! 1]) else ?ps ! 0))
       else Inr None)"
    unfolding strip_result [OF assms(1,2)] Let_def r d ..
  also have "\<dots> = Inr None" using assms(3) j by simp
  finally show ?thesis .
qed

lemma replace_all_Nil: "alts_ok alts \<Longrightarrow> replace_all alts b [] = []"
  by (simp add: replace_all_None regexp_exec_eq seg_def not_tracked_Nil)

lemma strip_rewrites:
  assumes "trackingParametersRegExp setting = Inr alts" "alts_ok alts"
    "length (split_on CHR ''?'' url) \<noteq> 1"
    "split_on CHR ''?'' url ! 1 = [] \<or> hd (split_on CHR ''?'' url ! 1) = CHR ''&''"
  shows "\<exists>u. stripTrackingParameters setting url = Inr (Some u) \<and>
           (split_on CHR ''?'' url ! 1 = [] \<longrightarrow> u = split_on CHR ''?'' url ! 0)"
proof -
  let ?ps = "split_on CHR ''?'' url"
  let ?q = "dropWhile (\<lambda>c. c = CHR ''&'') (replace_all alts True (?ps ! 1))"
  let ?ps' = "?ps[1 := ?q]"
  let ?res = "if ?q \<noteq> [] then join_with ''?'' ?ps' else ?ps ! 0"
  have l2: "1 < length ?ps"
    using assms(3) split_on_nonempty [of "CHR ''?''" url] by (cases ?ps) auto
  have free: "CHR ''?'' \<notin> set p" if "p \<in> set ?ps" for p using split_on_pieces [OF that] by simp
  have inurl: "CHR ''?'' \<in> set url"
  proof (rule ccontr)
    assume "CHR ''?'' \<notin> set url"
    then have "?ps = [url]" by (rule split_on_none)
    with assms(3) show False by simp
  qed
  have empty: "?q = []" if "?ps ! 1 = []" using that by (simp add: replace_all_Nil [OF assms(2)])
  have neq: "?res \<noteq> url"
  proof (cases "?q = []")
    case True
    have "?ps ! 0 \<in> set ?ps" using l2 by (intro nth_mem) linarith
    with free [of "?ps ! 0"] inurl have "?ps ! 0 \<noteq> url" by auto
    with True show ?thesis by simp
  next
    case False
    have "set ?q \<subseteq> set (?ps ! 1)"
      using set_replace_all [OF assms(2), of True "?ps ! 1"]
        set_dropWhileD [of _ "\<lambda>c. c = CHR ''&''" "replace_all alts True (?ps ! 1)"] by blast
    moreover have "?ps ! 1 \<in> set ?ps" using l2 by (intro nth_mem)
    ultimately have qfree: "CHR ''?'' \<notin> set ?q" using free [of "?ps ! 1"] by auto
    have "set ?ps' \<subseteq> insert ?q (set ?ps)" by (rule set_update_subset_insert)
    then have allfree: "\<forall>p \<in> set ?ps'. CHR ''?'' \<notin> set p" using free qfree by blast
    have ne: "?ps' \<noteq> []" using l2 by auto
    have sp: "split_on CHR ''?'' (join_with [CHR ''?''] ?ps') = ?ps'"
      using ne allfree by (rule split_on_join)
    have hq: "hd ?q \<noteq> CHR ''&''"
      using False hd_dropWhile [of "\<lambda>c. c = CHR ''&''" "replace_all alts True (?ps ! 1)"] by simp
    have "join_with ''?'' ?ps' \<noteq> url"
    proof
      assume "join_with ''?'' ?ps' = url"
      with sp have "?ps' = ?ps" by simp
      then have "?ps' ! 1 = ?ps ! 1" by simp
      then have "?q = ?ps ! 1" using l2 by simp
      with False hq assms(4) show False by auto
    qed
    with False show ?thesis by simp
  qed
  have "stripTrackingParameters setting url = (if ?res \<noteq> url then Inr (Some ?res) else Inr None)"
    unfolding strip_result [OF assms(1,3)] Let_def ..
  with neq have "stripTrackingParameters setting url = Inr (Some ?res)" by simp
  moreover have "?ps ! 1 = [] \<longrightarrow> ?res = ?ps ! 0" using empty by simp
  ultimately show ?thesis by blast
qed

lemma removeTrackersFromUrl_Some:
  "snd (removeTrackersFromUrl env s rid) = Inr (Some u) \<Longrightarrow>
   \<exists>c. get s rid = Some c \<and>
       stripTrackingParameters (TRACKING_PARAMETERS env) (requestUrl c) = Inr (Some u)"
  by (simp add: removeTrackersFromUrl_def split: option.splits sum.splits if_splits)

lemma removeTrackersFromUrl_None:
  "get s rid = Some c \<Longrightarrow>
   stripTrackingParameters (TRACKING_PARAMETERS env) (requestUrl c) = Inr None \<Longrightarrow>
   snd (removeTrackersFromUrl env s rid) = Inr None"
  by (simp add: removeTrackersFromUrl_def split: option.splits sum.splits if_splits)

text \<open>
  Claim C8, as amended. For a setting (a text of code units below 256) that is plain, that
  is, without a special character of regular expressions and without \<open>&\<close> and \<open>#\<close>, the
  expression is within the model and stripping is idempotent: a url that \<open>stripTrackingParameters\<close> returns differs from
  its input and is itself left alone (\<open>null\<close>), and the same holds for \<open>removeTrackersFromUrl\<close>
  on a context that has the returned url. A url without \<open>?\<close> is left alone. A url whose
  query (the text after the first \<open>?\<close>, up to the next one) is not empty, does not start with
  \<open>&\<close> and has no match of the expression is left alone. A url with an empty query is cut
  before the first \<open>?\<close>, and a url whose query starts with \<open>&\<close> is rewritten.
\<close>

theorem stripping_idempotent:
  assumes "plain_setting setting"
  shows "\<exists>alts r.
           trackingParametersRegExp setting = Inr alts \<and>
           stripTrackingParameters setting url = Inr r \<and>
           (\<forall>u. r = Some u \<longrightarrow> u \<noteq> url \<and> stripTrackingParameters setting u = Inr None) \<and>
           (CHR ''?'' \<notin> set url \<longrightarrow> r = None) \<and>
           (length (split_on CHR ''?'' url) \<noteq> 1 \<and> split_on CHR ''?'' url ! 1 \<noteq> [] \<and>
            hd (split_on CHR ''?'' url ! 1) \<noteq> CHR ''&'' \<and>
            no_match alts True (split_on CHR ''?'' url ! 1) \<longrightarrow> r = None) \<and>
           (length (split_on CHR ''?'' url) \<noteq> 1 \<and> split_on CHR ''?'' url ! 1 = [] \<longrightarrow>
              r = Some (split_on CHR ''?'' url ! 0)) \<and>
           (length (split_on CHR ''?'' url) \<noteq> 1 \<and> split_on CHR ''?'' url ! 1 \<noteq> [] \<and>
            hd (split_on CHR ''?'' url ! 1) = CHR ''&'' \<longrightarrow> r \<noteq> None) \<and>
           (\<forall>env s rid u s2 rid2 c2.
              TRACKING_PARAMETERS env = setting \<and>
              snd (removeTrackersFromUrl env s rid) = Inr (Some u) \<and>
              get s2 rid2 = Some c2 \<and> requestUrl c2 = u \<longrightarrow>
              snd (removeTrackersFromUrl env s2 rid2) = Inr None)"
proof -
  from plain_alts [OF assms] obtain alts where
    a: "trackingParametersRegExp setting = Inr alts" and ok: "alts_ok alts" by blast
  obtain r where r: "stripTrackingParameters setting url = Inr r"
    using a by (cases "stripTrackingParameters setting url")
      (auto simp add: stripTrackingParameters_def Let_def split: if_splits)
  have idem: "stripTrackingParameters setting u = Inr None"
    if "stripTrackingParameters setting v = Inr (Some u)" for u v
    using strip_idempotent_core [OF a ok that] .
  have neq: "u \<noteq> url" if "r = Some u" for u
    using r that a by (auto simp add: stripTrackingParameters_def Let_def split: if_splits)
  have noq: "r = None" if "CHR ''?'' \<notin> set url"
    using r split_on_none [OF that] by (simp add: stripTrackingParameters_def)
  have nom: "r = None" if "length (split_on CHR ''?'' url) \<noteq> 1"
    "split_on CHR ''?'' url ! 1 \<noteq> []" "hd (split_on CHR ''?'' url ! 1) \<noteq> CHR ''&''"
    "no_match alts True (split_on CHR ''?'' url ! 1)"
    using strip_no_match [OF a that] r by simp
  have wrap: "snd (removeTrackersFromUrl env s2 rid2) = Inr None"
    if "TRACKING_PARAMETERS env = setting" "snd (removeTrackersFromUrl env s rid) = Inr (Some u)"
      "get s2 rid2 = Some c2" "requestUrl c2 = u" for env s rid u s2 rid2 c2
  proof -
    from removeTrackersFromUrl_Some [OF that(2)] that(1) obtain c :: request_context where
      "stripTrackingParameters setting (requestUrl c) = Inr (Some u)" by auto
    from idem [OF this] have "stripTrackingParameters setting u = Inr None" .
    with that(1,4) have "stripTrackingParameters (TRACKING_PARAMETERS env) (requestUrl c2) = Inr None"
      by simp
    from removeTrackersFromUrl_None [OF that(3) this] show ?thesis .
  qed
  have emp: "r = Some (split_on CHR ''?'' url ! 0)"
    if "length (split_on CHR ''?'' url) \<noteq> 1" "split_on CHR ''?'' url ! 1 = []"
    using strip_rewrites [OF a ok that(1)] that(2) r by auto
  have amp: "r \<noteq> None"
    if "length (split_on CHR ''?'' url) \<noteq> 1" "hd (split_on CHR ''?'' url ! 1) = CHR ''&''"
    using strip_rewrites [OF a ok that(1)] that(2) r by auto
  have c3: "\<forall>u. r = Some u \<longrightarrow> u \<noteq> url \<and> stripTrackingParameters setting u = Inr None"
    using neq idem r by auto
  have c6: "\<forall>env s rid u s2 rid2 c2.
              TRACKING_PARAMETERS env = setting \<and>
              snd (removeTrackersFromUrl env s rid) = Inr (Some u) \<and>
              get s2 rid2 = Some c2 \<and> requestUrl c2 = u \<longrightarrow>
              snd (removeTrackersFromUrl env s2 rid2) = Inr None"
    using wrap by blast
  show ?thesis
    by (intro exI [of _ alts] exI [of _ r] conjI a r c3 c6 impI noq nom emp amp) simp_all
qed

lemma plain_default: "plain_setting DEFAULT_TRACKING_PARAMETERS"
  unfolding plain_setting_def DEFAULT_TRACKING_PARAMETERS_def special_characters_def
  by code_simp

text \<open>
  The expression at work: a parameter at the start, a parameter in other case with a fragment
  that is not touched, and a setting with white space, \<open>=\<close> and \<open>*\<close>.
\<close>

lemma strip_examples:
  "stripTrackingParameters DEFAULT_TRACKING_PARAMETERS ''http://example.org/?utm_source=x&id=7''
     = Inr (Some ''http://example.org/?id=7'')"
  "stripTrackingParameters DEFAULT_TRACKING_PARAMETERS ''http://example.org/?id=7&UTM_Medium=a#utm_term=1''
     = Inr (Some ''http://example.org/?id=7#utm_term=1'')"
  "stripTrackingParameters ''fb_*, =utm_source '' ''http://example.org/?utm_source=x&fb_ref=1&fbx=2''
     = Inr (Some ''http://example.org/?fbx=2'')"
  by code_simp+

text \<open>
  Outside ASCII: the no-break space at the end of a name is trimmed, and a letter of Latin-1
  is matched in either case.
\<close>

lemma strip_examples_latin1:
  "stripTrackingParameters (''utm_source'' @ [CHR 0xA0]) ''http://example.org/?utm_source=x&id=7''
     = Inr (Some ''http://example.org/?id=7'')"
  "stripTrackingParameters [CHR 0xE9] (''http://example.org/?'' @ [CHR 0xC9] @ ''=1&id=7'')
     = Inr (Some ''http://example.org/?id=7'')"
  "stripTrackingParameters [CHR 0xFF] (''http://example.org/?'' @ [CHR 0xDF] @ ''=1&id=7'')
     = Inr None"
  by code_simp+

text \<open>
  Claim C8 as stated fails. With the default setting, a url with an empty query, or with a
  query that starts with \<open>&\<close>, has no matching parameter and is rewritten all the same. With
  the name \<open>a&b\<close> in the setting, stripping the stripped url strips again.
\<close>

theorem rewritten_without_matching_parameter:
  "(case trackingParametersRegExp DEFAULT_TRACKING_PARAMETERS of
      Inl e \<Rightarrow> False
    | Inr alts \<Rightarrow> no_match alts True [] \<and> no_match alts True ''&id=7'') \<and>
   stripTrackingParameters DEFAULT_TRACKING_PARAMETERS ''http://example.org/?''
     = Inr (Some ''http://example.org/'') \<and>
   stripTrackingParameters DEFAULT_TRACKING_PARAMETERS ''http://example.org/?&id=7''
     = Inr (Some ''http://example.org/?id=7'') \<and>
   stripTrackingParameters ''a&b'' ''http://example.org/?a&a&b=1&b=2''
     = Inr (Some ''http://example.org/?a&b=2'') \<and>
   stripTrackingParameters ''a&b'' ''http://example.org/?a&b=2''
     = Inr (Some ''http://example.org/'')"
  by code_simp

text \<open>
  The default setting is plain; one parameter is stripped, then nothing more; a query without
  a match is left alone.
\<close>

theorem stripping_idempotent_witness:
  "plain_setting DEFAULT_TRACKING_PARAMETERS \<and>
   stripTrackingParameters DEFAULT_TRACKING_PARAMETERS ''http://example.org/?utm_source=x&id=7''
     = Inr (Some ''http://example.org/?id=7'') \<and>
   stripTrackingParameters DEFAULT_TRACKING_PARAMETERS ''http://example.org/?id=7'' = Inr None \<and>
   (case trackingParametersRegExp DEFAULT_TRACKING_PARAMETERS of
      Inl e \<Rightarrow> False | Inr alts \<Rightarrow> no_match alts True ''x=1&y=2'') \<and>
   stripTrackingParameters DEFAULT_TRACKING_PARAMETERS ''http://example.org/?x=1&y=2'' = Inr None"
proof -
  from stripping_idempotent [OF plain_default, of "''http://example.org/?utm_source=x&id=7''"]
  obtain r where
    "stripTrackingParameters DEFAULT_TRACKING_PARAMETERS ''http://example.org/?utm_source=x&id=7''
       = Inr r"
    "\<forall>u. r = Some u \<longrightarrow> stripTrackingParameters DEFAULT_TRACKING_PARAMETERS u = Inr None"
    by blast
  with strip_examples(1)
  have first: "stripTrackingParameters DEFAULT_TRACKING_PARAMETERS ''http://example.org/?id=7''
      = Inr None" by simp
  have nm: "case trackingParametersRegExp DEFAULT_TRACKING_PARAMETERS of
      Inl e \<Rightarrow> False | Inr alts \<Rightarrow> no_match alts True ''x=1&y=2''"
    by code_simp
  have sp: "split_on CHR ''?'' ''http://example.org/?x=1&y=2'' = [''http://example.org/'', ''x=1&y=2'']"
    by code_simp
  from stripping_idempotent [OF plain_default, of "''http://example.org/?x=1&y=2''"]
  obtain alts r2 where
    a: "trackingParametersRegExp DEFAULT_TRACKING_PARAMETERS = Inr alts"
    and r2: "stripTrackingParameters DEFAULT_TRACKING_PARAMETERS ''http://example.org/?x=1&y=2''
       = Inr r2"
    and imp: "length (split_on CHR ''?'' ''http://example.org/?x=1&y=2'') \<noteq> 1 \<and>
       split_on CHR ''?'' ''http://example.org/?x=1&y=2'' ! 1 \<noteq> [] \<and>
       hd (split_on CHR ''?'' ''http://example.org/?x=1&y=2'' ! 1) \<noteq> CHR ''&'' \<and>
       no_match alts True (split_on CHR ''?'' ''http://example.org/?x=1&y=2'' ! 1) \<longrightarrow> r2 = None"
    by blast
  from nm a have "no_match alts True ''x=1&y=2''" by simp
  with imp have "r2 = None" unfolding sp by simp
  with r2 first nm strip_examples(1) plain_default show ?thesis by simp
qed

end
